theory Spec2Isabelle
  imports Complex_Main "HOL-Library.Char_ord" "HOL-Library.List_Lexorder" "HOL-Library.Multiset"
    "HOL-Library.Log_Nat"
begin

section \<open>Data model\<close>

text \<open>
  The ledger of \<^verbatim>\<open>src/App.jsx\<close> is an array of asset records
  \<^verbatim>\<open>{ id, date, type, amount, exchangeRate, note }\<close>. The date is an ISO string
  \<^verbatim>\<open>'YYYY-MM-DD'\<close> (the value of an input of type date), the type is one of the four
  keys of \<^verbatim>\<open>ASSET_LABELS\<close>. A number is the rational value of a double (section
  \<open>Numbers\<close>). Strings are compared as JavaScript compares them, lexicographically by
  character code, a proper prefix being smaller (the order of
  \<open>HOL-Library.List_Lexorder\<close> over \<open>HOL-Library.Char_ord\<close>).
\<close>

datatype asset_type = Tw_stock | Us_stock | Tw_cash | Us_cash

record asset =
  id_a :: string
  date :: string
  type :: asset_type
  amount :: rat
  exchangeRate :: rat
  note_a :: string

text \<open>A point of the timeline, as \<^verbatim>\<open>timelineData\<close> builds it.\<close>

record point =
  date_p :: string
  total :: rat
  investment :: rat
  us_inv :: rat
  tw_inv :: rat

datatype chart_mode = Total | Investment

datatype period = P1m | P3m | P6m | P1y | P3y | PAll

text \<open>The result object of \<^verbatim>\<open>calculateAnnualGrowth\<close>; \<open>None\<close> is \<^verbatim>\<open>null\<close>.\<close>

record annual =
  growth :: "rat option"
  startVal :: rat
  endVal :: rat

section \<open>Numbers\<close>

text \<open>
  A JavaScript number is an IEEE 754 double. A finite double is modelled by the rational
  number it denotes: \<open>m * 2 powi q\<close> with \<open>\<bar>m\<bar> < 2 ^ 53\<close> and \<open>- 1074 \<le> q\<close>. The sum,
  difference, product and quotient of two doubles are the exact results rounded to the
  nearest double, a tie going to the even significand: \<open>rnd\<close>, where \<open>ilog2 a\<close> is the
  binary exponent of \<open>a > 0\<close> and the spacing of the doubles around \<open>a\<close> is
  \<open>2 powi max (ilog2 a - 52) (- 1074)\<close>. The number that a literal or \<^verbatim>\<open>Number(s)\<close> gives
  for a decimal \<open>x\<close> is \<open>rnd x\<close>.

  Outside the model: \<^verbatim>\<open>Infinity\<close> and \<^verbatim>\<open>NaN\<close> as numbers (a result of magnitude
  \<open>2 ^ 1024\<close> or more is rounded as if the exponents had no upper end, and the amounts
  and rates of a ledger are finite numbers), and the sign of zero, which no comparison
  of the program tells apart.
\<close>

definition ilog2 :: "rat \<Rightarrow> int" where
  "ilog2 a = (if 1 \<le> a then bitlen \<lfloor>a\<rfloor> - 1 else - bitlen (\<lceil>1 / a\<rceil> - 1))"

definition roundHalfEven :: "rat \<Rightarrow> int" where
  "roundHalfEven t =
     (let f = \<lfloor>t\<rfloor>; r = t - of_int f
      in if r < 1 / 2 then f else if 1 / 2 < r then f + 1 else if even f then f else f + 1)"

definition rnd :: "rat \<Rightarrow> rat" where
  "rnd x =
     (if x = 0 then 0
      else
        (let a = \<bar>x\<bar>;
             e = ilog2 a;
             q = max (e - 52) (- 1074);
             m = roundHalfEven (a / 2 powi q)
         in sgn x * of_int m * 2 powi q))"

text \<open>The operators \<^verbatim>\<open>+\<close>, \<^verbatim>\<open>-\<close>, \<^verbatim>\<open>*\<close> and \<^verbatim>\<open>/\<close> on numbers.\<close>

definition dadd :: "rat \<Rightarrow> rat \<Rightarrow> rat" where
  "dadd a b = rnd (a + b)"

definition dsub :: "rat \<Rightarrow> rat \<Rightarrow> rat" where
  "dsub a b = rnd (a - b)"

definition dmul :: "rat \<Rightarrow> rat \<Rightarrow> rat" where
  "dmul a b = rnd (a * b)"

definition ddiv :: "rat \<Rightarrow> rat \<Rightarrow> rat" where
  "ddiv a b = rnd (a / b)"

section \<open>The Date of JavaScript (ECMA-262, Date objects)\<close>

text \<open>
  A time value is a number of milliseconds since 1970-01-01T00:00:00Z, or \<^verbatim>\<open>NaN\<close>
  (an invalid date): \<open>int option\<close>, with \<open>None\<close> for \<^verbatim>\<open>NaN\<close>. The functions below are
  the abstract operations of the standard, under its names.
\<close>

definition msPerDay :: int where
  "msPerDay = 86400000"

definition Day :: "int \<Rightarrow> int" where
  "Day t = t div msPerDay"

definition TimeWithinDay :: "int \<Rightarrow> int" where
  "TimeWithinDay t = t mod msPerDay"

definition DaysInYear :: "int \<Rightarrow> int" where
  "DaysInYear y =
     (if y mod 4 \<noteq> 0 then 365
      else if y mod 100 \<noteq> 0 then 366
      else if y mod 400 \<noteq> 0 then 365
      else 366)"

definition DayFromYear :: "int \<Rightarrow> int" where
  "DayFromYear y =
     365 * (y - 1970) + (y - 1969) div 4 - (y - 1901) div 100 + (y - 1601) div 400"

text \<open>
  The standard defines \<^verbatim>\<open>YearFromTime(t)\<close> as the largest year whose first day is not
  after \<open>t\<close>. Here it is computed from the 400, 100, 4 and 1 year cycles of the Gregorian
  calendar, counted from 1601-01-01 (day number \<open>-134774\<close>); lemma \<open>YearFromDay_spec\<close>
  shows that this is the year the standard defines.
\<close>

definition YearFromDay :: "int \<Rightarrow> int" where
  "YearFromDay n =
     (let k = n + 134774;
          c400 = k div 146097;
          r = k mod 146097;
          c100 = min 3 (r div 36524);
          r2 = r - c100 * 36524;
          c4 = r2 div 1461;
          r3 = r2 mod 1461;
          c1 = min 3 (r3 div 365)
      in 1601 + 400 * c400 + 100 * c100 + 4 * c4 + c1)"

definition YearFromTime :: "int \<Rightarrow> int" where
  "YearFromTime t = YearFromDay (Day t)"

definition InLeapYear :: "int \<Rightarrow> int" where
  "InLeapYear t = (if DaysInYear (YearFromTime t) = 366 then 1 else 0)"

definition DayWithinYear :: "int \<Rightarrow> int" where
  "DayWithinYear t = Day t - DayFromYear (YearFromTime t)"

definition MonthFromTime :: "int \<Rightarrow> int" where
  "MonthFromTime t =
     (let d = DayWithinYear t; l = InLeapYear t in
      if d < 31 then 0
      else if d < 59 + l then 1
      else if d < 90 + l then 2
      else if d < 120 + l then 3
      else if d < 151 + l then 4
      else if d < 181 + l then 5
      else if d < 212 + l then 6
      else if d < 243 + l then 7
      else if d < 273 + l then 8
      else if d < 304 + l then 9
      else if d < 334 + l then 10
      else 11)"

definition DateFromTime :: "int \<Rightarrow> int" where
  "DateFromTime t =
     (let d = DayWithinYear t; l = InLeapYear t; m = MonthFromTime t in
      if m = 0 then d + 1
      else if m = 1 then d - 30
      else if m = 2 then d - 58 - l
      else if m = 3 then d - 89 - l
      else if m = 4 then d - 119 - l
      else if m = 5 then d - 150 - l
      else if m = 6 then d - 180 - l
      else if m = 7 then d - 211 - l
      else if m = 8 then d - 242 - l
      else if m = 9 then d - 272 - l
      else if m = 10 then d - 303 - l
      else d - 333 - l)"

text \<open>
  \<open>monthStart l m\<close> is the day within the year of the first day of month \<open>m\<close>
  (\<open>0\<close> is January), in a year with \<open>l\<close> leap days: the lower bounds of the table of
  \<^verbatim>\<open>MonthFromTime\<close>.
\<close>

definition monthStart :: "int \<Rightarrow> int \<Rightarrow> int" where
  "monthStart l m =
     (if m = 0 then 0
      else if m = 1 then 31
      else if m = 2 then 59 + l
      else if m = 3 then 90 + l
      else if m = 4 then 120 + l
      else if m = 5 then 151 + l
      else if m = 6 then 181 + l
      else if m = 7 then 212 + l
      else if m = 8 then 243 + l
      else if m = 9 then 273 + l
      else if m = 10 then 304 + l
      else 334 + l)"

text \<open>
  \<^verbatim>\<open>MakeDay(year, month, date)\<close>: the month may lie outside \<open>0..11\<close> and the date outside
  the month; both carry over (month \<open>-1\<close> is December of the year before, February 31
  is March 3).
\<close>

definition MakeDay :: "int \<Rightarrow> int \<Rightarrow> int \<Rightarrow> int" where
  "MakeDay year month dt =
     (let ym = year + month div 12;
          mn = month mod 12
      in DayFromYear ym + monthStart (if DaysInYear ym = 366 then 1 else 0) mn + dt - 1)"

definition MakeDate :: "int \<Rightarrow> int \<Rightarrow> int" where
  "MakeDate day time = day * msPerDay + time"

definition TimeClip :: "int \<Rightarrow> int option" where
  "TimeClip t = (if \<bar>t\<bar> > 8640000000000000 then None else Some t)"

text \<open>
  The time zone of the browser is a parameter: \<open>tza t isUTC\<close> is
  \<^verbatim>\<open>LocalTZA(t, isUTC)\<close>, the offset of local time in milliseconds.
\<close>

type_synonym tz = "int \<Rightarrow> bool \<Rightarrow> int"

definition LocalTime :: "tz \<Rightarrow> int \<Rightarrow> int" where
  "LocalTime tza t = t + tza t True"

definition UTC :: "tz \<Rightarrow> int \<Rightarrow> int" where
  "UTC tza t = t - tza t False"

definition getMonth :: "tz \<Rightarrow> int option \<Rightarrow> int option" where
  "getMonth tza d = map_option (\<lambda>t. MonthFromTime (LocalTime tza t)) d"

definition getFullYear :: "tz \<Rightarrow> int option \<Rightarrow> int option" where
  "getFullYear tza d = map_option (\<lambda>t. YearFromTime (LocalTime tza t)) d"

definition setMonth :: "tz \<Rightarrow> int option \<Rightarrow> int option \<Rightarrow> int option" where
  "setMonth tza d month =
     (case d of
        None \<Rightarrow> None
      | Some t0 \<Rightarrow>
          (case month of
             None \<Rightarrow> None
           | Some m \<Rightarrow>
               (let t = LocalTime tza t0;
                    newDate = MakeDate (MakeDay (YearFromTime t) m (DateFromTime t)) (TimeWithinDay t)
                in TimeClip (UTC tza newDate))))"

definition setFullYear :: "tz \<Rightarrow> int option \<Rightarrow> int option \<Rightarrow> int option" where
  "setFullYear tza d year =
     (let t = (case d of None \<Rightarrow> 0 | Some t0 \<Rightarrow> LocalTime tza t0) in
      case year of
        None \<Rightarrow> None
      | Some y \<Rightarrow>
          TimeClip (UTC tza (MakeDate (MakeDay y (MonthFromTime t) (DateFromTime t)) (TimeWithinDay t))))"

subsection \<open>Parsing a date string\<close>

text \<open>
  \<^verbatim>\<open>new Date(s)\<close> on a date-only string \<^verbatim>\<open>'YYYY-MM-DD'\<close> is midnight UTC of that day;
  a string of this form with an illegal month or day is an invalid date, as the standard
  says. The engines agree on the dates of the calendar, which are the dates the theorems
  are about (\<open>wf_date\<close>); on a day that the month does not have they differ (V8 reads
  \<^verbatim>\<open>'2025-02-30'\<close> as 2 March, where the model and other engines give an invalid date).
  This is the only form the ledger stores. Other strings are left unparsed here (\<open>None\<close>):
  what the engines accept beyond the standard's format is implementation-defined.
\<close>

definition isDigit :: "char \<Rightarrow> bool" where
  "isDigit c = (CHR ''0'' \<le> c \<and> c \<le> CHR ''9'')"

definition digitVal :: "char \<Rightarrow> int" where
  "digitVal c = int (of_char c) - 48"

definition digits :: "string \<Rightarrow> int" where
  "digits s = foldl (\<lambda>n c. 10 * n + digitVal c) 0 s"

definition DaysInMonth :: "int \<Rightarrow> int \<Rightarrow> int" where
  "DaysInMonth y m =
     (if m = 2 then (if DaysInYear y = 366 then 29 else 28)
      else if m = 4 \<or> m = 6 \<or> m = 9 \<or> m = 11 then 30
      else 31)"

definition parseDate :: "string \<Rightarrow> (int \<times> int \<times> int) option" where
  "parseDate s =
     (if length s = 10 \<and> list_all isDigit (take 4 s) \<and> s ! 4 = CHR ''-''
         \<and> list_all isDigit (take 2 (drop 5 s)) \<and> s ! 7 = CHR ''-''
         \<and> list_all isDigit (drop 8 s)
      then
        (let y = digits (take 4 s); m = digits (take 2 (drop 5 s)); d = digits (drop 8 s) in
         if 1 \<le> m \<and> m \<le> 12 \<and> 1 \<le> d \<and> d \<le> DaysInMonth y m then Some (y, m, d) else None)
      else None)"

definition getTime :: "string \<Rightarrow> int option" where
  "getTime s =
     (case parseDate s of
        None \<Rightarrow> None
      | Some (y, m, d) \<Rightarrow> TimeClip (MakeDate (MakeDay y (m - 1) d) 0))"

text \<open>The comparisons of JavaScript on numbers: every comparison with \<^verbatim>\<open>NaN\<close> is false.\<close>

definition le_num :: "int option \<Rightarrow> int option \<Rightarrow> bool" where
  "le_num a b = (case a of None \<Rightarrow> False | Some x \<Rightarrow> (case b of None \<Rightarrow> False | Some y \<Rightarrow> x \<le> y))"

definition ge_num :: "int option \<Rightarrow> int option \<Rightarrow> bool" where
  "ge_num a b = (case a of None \<Rightarrow> False | Some x \<Rightarrow> (case b of None \<Rightarrow> False | Some y \<Rightarrow> x \<ge> y))"

text \<open>A date string the model parses: a calendar date with a four-digit year.\<close>

definition wf_date :: "string \<Rightarrow> bool" where
  "wf_date s = (parseDate s \<noteq> None)"

section \<open>Arrays\<close>

text \<open>
  \<^verbatim>\<open>Array.prototype.sort(cmp)\<close> is stable. It is modelled by the stable insertion sort:
  an element goes before the first later element that does not have to precede it.
  A comparator result \<^verbatim>\<open>NaN\<close> counts as \<open>0\<close>, as the standard says.
\<close>

fun insertBy :: "('a \<Rightarrow> 'a \<Rightarrow> int) \<Rightarrow> 'a \<Rightarrow> 'a list \<Rightarrow> 'a list" where
  "insertBy cmp x [] = [x]"
| "insertBy cmp x (y # ys) = (if cmp x y \<le> 0 then x # y # ys else y # insertBy cmp x ys)"

fun sortBy :: "('a \<Rightarrow> 'a \<Rightarrow> int) \<Rightarrow> 'a list \<Rightarrow> 'a list" where
  "sortBy cmp [] = []"
| "sortBy cmp (x # xs) = insertBy cmp x (sortBy cmp xs)"

text \<open>
  \<^verbatim>\<open>(a, b) => new Date(b.date).getTime() - new Date(a.date).getTime()\<close>: latest first.
\<close>

definition byDateDesc :: "asset \<Rightarrow> asset \<Rightarrow> int" where
  "byDateDesc a b =
     (case getTime (date b) of
        None \<Rightarrow> 0
      | Some tb \<Rightarrow> (case getTime (date a) of None \<Rightarrow> 0 | Some ta \<Rightarrow> tb - ta))"

text \<open>
  \<^verbatim>\<open>Array.from(new Set(xs))\<close>: the distinct elements in the order of their first
  occurrence.
\<close>

definition setAdd :: "'a list \<Rightarrow> 'a \<Rightarrow> 'a list" where
  "setAdd s x = (if x \<in> set s then s else s @ [x])"

definition newSet :: "'a list \<Rightarrow> 'a list" where
  "newSet xs = foldl setAdd [] xs"

definition startsWith :: "string \<Rightarrow> string \<Rightarrow> bool" where
  "startsWith s y = (take (length y) s = y)"

section \<open>The dashboard\<close>

definition assetTypes :: "asset_type list" where
  "assetTypes = [Tw_stock, Us_stock, Tw_cash, Us_cash]"

subsection \<open>Current status\<close>

text \<open>
  \<^verbatim>\<open>currentStatus\<close>: the status object starts at \<open>0\<close> for each type; for each type in
  turn the records of the type are sorted latest first and the first one sets the entry.
\<close>

definition currentStatus :: "asset list \<Rightarrow> asset_type \<Rightarrow> rat" where
  "currentStatus assets =
     foldl (\<lambda>status ty.
        (let recordsOfType = filter (\<lambda>a. type a = ty) assets in
         if length recordsOfType > 0
         then (case sortBy byDateDesc recordsOfType of
                 [] \<Rightarrow> status
               | latest # _ \<Rightarrow> status (ty := dmul (amount latest) (exchangeRate latest)))
         else status))
       (\<lambda>_. 0) assetTypes"

text \<open>\<^verbatim>\<open>Object.values(currentStatus).reduce((a, b) => a + b, 0)\<close>\<close>

definition totalAssetsTwd :: "asset list \<Rightarrow> rat" where
  "totalAssetsTwd assets = foldl (\<lambda>a b. dadd a b) 0 (map (currentStatus assets) assetTypes)"

subsection \<open>The timeline (\<^verbatim>\<open>buildTimeline\<close> of the specification)\<close>

text \<open>
  The body of \<^verbatim>\<open>uniqueDates.map\<close>: the four values start at \<open>0\<close>; for each type the
  records of the type dated at or before the current moment are sorted latest first,
  and the first one sets the value of its type.
\<close>

definition categoryValues :: "asset list \<Rightarrow> int option \<Rightarrow> asset_type \<Rightarrow> rat" where
  "categoryValues assets currentMoment =
     foldl (\<lambda>vals ty.
        (let relevantRecords =
               filter (\<lambda>a. type a = ty \<and> le_num (getTime (date a)) currentMoment) assets in
         if length relevantRecords > 0
         then (case sortBy byDateDesc relevantRecords of
                 [] \<Rightarrow> vals
               | latest # _ \<Rightarrow> vals (ty := dmul (amount latest) (exchangeRate latest)))
         else vals))
       (\<lambda>_. 0) assetTypes"

definition dataPoint :: "asset list \<Rightarrow> string \<Rightarrow> point" where
  "dataPoint assets d =
     (let currentMoment = getTime d;
          vals = categoryValues assets currentMoment;
          twStockVal = vals Tw_stock;
          usStockVal = vals Us_stock;
          twCashVal = vals Tw_cash;
          usCashVal = vals Us_cash
      in \<lparr> date_p = d,
           total = dadd (dadd (dadd twStockVal usStockVal) twCashVal) usCashVal,
           investment = dadd twStockVal usStockVal,
           us_inv = usStockVal,
           tw_inv = twStockVal \<rparr>)"

definition uniqueDates :: "asset list \<Rightarrow> string list" where
  "uniqueDates assets = sort (newSet (map date assets))"

definition timelineData :: "asset list \<Rightarrow> point list" where
  "timelineData assets =
     (if length assets = 0 then [] else map (dataPoint assets) (uniqueDates assets))"

subsection \<open>The chart period (\<^verbatim>\<open>filterByPeriod\<close> of the specification)\<close>

text \<open>
  \<^verbatim>\<open>filteredTimeline\<close> reads the clock twice (\<^verbatim>\<open>now\<close> and \<^verbatim>\<open>cutoffDate\<close> are both
  \<^verbatim>\<open>new Date()\<close>); the two readings are the parameters \<open>now\<close> and \<open>cutoff0\<close>. The
  month or year of \<open>cutoffDate\<close> is then set from \<open>now\<close>, one \<^verbatim>\<open>if\<close> after the other.
\<close>

definition cutoffFor :: "tz \<Rightarrow> int \<Rightarrow> int \<Rightarrow> period \<Rightarrow> int option" where
  "cutoffFor tza now cutoff0 chartPeriod =
     (let cutoffDate = Some cutoff0;
          cutoffDate = (if chartPeriod = P1m
                        then setMonth tza cutoffDate (map_option (\<lambda>m. m - 1) (getMonth tza (Some now)))
                        else cutoffDate);
          cutoffDate = (if chartPeriod = P3m
                        then setMonth tza cutoffDate (map_option (\<lambda>m. m - 3) (getMonth tza (Some now)))
                        else cutoffDate);
          cutoffDate = (if chartPeriod = P6m
                        then setMonth tza cutoffDate (map_option (\<lambda>m. m - 6) (getMonth tza (Some now)))
                        else cutoffDate);
          cutoffDate = (if chartPeriod = P1y
                        then setFullYear tza cutoffDate (map_option (\<lambda>y. y - 1) (getFullYear tza (Some now)))
                        else cutoffDate);
          cutoffDate = (if chartPeriod = P3y
                        then setFullYear tza cutoffDate (map_option (\<lambda>y. y - 3) (getFullYear tza (Some now)))
                        else cutoffDate)
      in cutoffDate)"

definition filteredTimeline :: "tz \<Rightarrow> int \<Rightarrow> int \<Rightarrow> period \<Rightarrow> point list \<Rightarrow> point list" where
  "filteredTimeline tza now cutoff0 chartPeriod points =
     (if chartPeriod = PAll then points
      else
        (let cutoffDate = cutoffFor tza now cutoff0 chartPeriod in
         filter (\<lambda>d. ge_num (getTime (date_p d)) cutoffDate) points))"

subsection \<open>Trailing growth\<close>

text \<open>
  The growth functions read \<^verbatim>\<open>timelineData\<close> from the enclosing component; here it is
  the parameter \<open>points\<close>. \<open>metric\<close> is \<^verbatim>\<open>mode === 'total' ? p.total : p.investment\<close>.
\<close>

definition metric :: "chart_mode \<Rightarrow> point \<Rightarrow> rat" where
  "metric mode p = (if mode = Total then total p else investment p)"

text \<open>\<^verbatim>\<open>Math.abs(a - b)\<close> on time values.\<close>

definition abs_diff :: "int option \<Rightarrow> int option \<Rightarrow> int option" where
  "abs_diff a b =
     (case a of None \<Rightarrow> None | Some x \<Rightarrow> (case b of None \<Rightarrow> None | Some y \<Rightarrow> Some \<bar>x - y\<bar>))"

text \<open>The running minimum \<^verbatim>\<open>minDiff\<close> starts at \<^verbatim>\<open>Infinity\<close>.\<close>

datatype min_diff = Infinity | Fin int

text \<open>
  One round of the \<^verbatim>\<open>forEach\<close> of \<^verbatim>\<open>calculateTrailingGrowth\<close>, on the state
  \<open>(minDiff, comparisonPoint)\<close>: \<^verbatim>\<open>if (diff < minDiff)\<close>, which is false for a
  \<^verbatim>\<open>NaN\<close> difference.
\<close>

definition nearestStep :: "int option \<Rightarrow> min_diff \<times> point \<Rightarrow> point \<Rightarrow> min_diff \<times> point" where
  "nearestStep targetDate st p =
     (case abs_diff (getTime (date_p p)) targetDate of
        None \<Rightarrow> st
      | Some diff \<Rightarrow>
          if (case fst st of Infinity \<Rightarrow> True | Fin minDiff \<Rightarrow> diff < minDiff)
          then (Fin diff, p)
          else st)"

definition targetDateOf :: "tz \<Rightarrow> point \<Rightarrow> int \<Rightarrow> int option" where
  "targetDateOf tza lastPoint months =
     (let now = getTime (date_p lastPoint);
          targetDate = now
      in setMonth tza targetDate (map_option (\<lambda>m. m - months) (getMonth tza targetDate)))"

definition calculateTrailingGrowth :: "tz \<Rightarrow> point list \<Rightarrow> int \<Rightarrow> chart_mode \<Rightarrow> rat option" where
  "calculateTrailingGrowth tza points months mode =
     (if length points < 2 then None
      else
        (let lastPoint = points ! (length points - 1);
             currentValue = metric mode lastPoint;
             targetDate = targetDateOf tza lastPoint months;
             comparisonPoint = snd (foldl (nearestStep targetDate) (Infinity, points ! 0) points);
             prevValue = metric mode comparisonPoint
         in if prevValue = 0 then Some 0
            else Some (dmul (ddiv (dsub currentValue prevValue) prevValue) 100)))"

subsection \<open>Annual growth\<close>

text \<open>The end of \<^verbatim>\<open>calculateAnnualGrowth\<close>, once the base value is known.\<close>

definition growthFrom :: "rat \<Rightarrow> rat \<Rightarrow> annual" where
  "growthFrom startValue endValue =
     (if startValue = 0 then \<lparr> growth = None, startVal = startValue, endVal = endValue \<rparr>
      else \<lparr> growth = Some (dmul (ddiv (dsub endValue startValue) startValue) 100),
             startVal = startValue, endVal = endValue \<rparr>)"

definition calculateAnnualGrowth :: "point list \<Rightarrow> chart_mode \<Rightarrow> string \<Rightarrow> annual" where
  "calculateAnnualGrowth points chartMode year =
     (if length points = 0 then \<lparr> growth = None, startVal = 0, endVal = 0 \<rparr>
      else
        (let pointsInYear = filter (\<lambda>d. startsWith (date_p d) year) points;
             pointsBeforeYear = filter (\<lambda>d. date_p d < year @ ''-01-01'') points
         in if length pointsInYear = 0 then \<lparr> growth = None, startVal = 0, endVal = 0 \<rparr>
            else
              (let endPoint = pointsInYear ! (length pointsInYear - 1);
                   endValue = metric chartMode endPoint
               in if length pointsBeforeYear > 0
                  then
                    (let prevEndPoint = pointsBeforeYear ! (length pointsBeforeYear - 1)
                     in growthFrom (metric chartMode prevEndPoint) endValue)
                  else
                    (let startPoint = pointsInYear ! 0
                     in if length pointsInYear = 1
                        then \<lparr> growth = None, startVal = 0, endVal = endValue \<rparr>
                        else growthFrom (metric chartMode startPoint) endValue))))"

section \<open>Notions used in the statements\<close>

text \<open>
  \<open>firstMax k xs r\<close>: \<open>r\<close> is the first element of \<open>xs\<close> among those of greatest key
  \<open>k\<close>. This is what the head of a stable descending sort is.
\<close>

definition firstMax :: "('a \<Rightarrow> int) \<Rightarrow> 'a list \<Rightarrow> 'a \<Rightarrow> bool" where
  "firstMax k xs r =
     (r \<in> set xs \<and> (\<forall>a\<in>set xs. k a \<le> k r) \<and> find (\<lambda>a. k a = k r) xs = Some r)"

text \<open>
  The value that both \<^verbatim>\<open>currentStatus\<close> and the timeline take from a list of records:
  sort latest first, take the first, multiply amount by rate; \<open>0\<close> on the empty list.
\<close>

definition latestValue :: "asset list \<Rightarrow> rat" where
  "latestValue rs =
     (case sortBy byDateDesc rs of [] \<Rightarrow> 0 | latest # _ \<Rightarrow> dmul (amount latest) (exchangeRate latest))"

text \<open>A number that is a double: rounding leaves it as it is.\<close>

definition representable :: "rat \<Rightarrow> bool" where
  "representable x = (rnd x = x)"

text \<open>
  The time value of a record's date, and \<open>latestAt assets c cm r\<close>: among the records of
  category \<open>c\<close> whose time value is at most the moment \<open>cm\<close>, \<open>r\<close> has the greatest time
  value, and is the first such record of \<open>assets\<close>.
\<close>

definition timeOf :: "asset \<Rightarrow> int" where
  "timeOf a = (case getTime (date a) of None \<Rightarrow> 0 | Some t \<Rightarrow> t)"

definition latestAt :: "asset list \<Rightarrow> asset_type \<Rightarrow> int option \<Rightarrow> asset \<Rightarrow> bool" where
  "latestAt assets c cm r =
     (r \<in> set assets \<and> type r = c \<and> le_num (getTime (date r)) cm
      \<and> (\<forall>a\<in>set assets. type a = c \<and> le_num (getTime (date a)) cm
            \<longrightarrow> le_num (getTime (date a)) (getTime (date r)))
      \<and> find (\<lambda>a. type a = c \<and> getTime (date a) = getTime (date r)) assets = Some r)"

text \<open>
  Calendar dates: the leap days of a year, a valid date (year, month \<open>1..12\<close>, day of the
  month), the three numbers of a date string, a year string (four digits, as the entries
  of \<^verbatim>\<open>YEARS\<close>), and the day number of a date string (days since 1970-01-01).
\<close>

definition leapDays :: "int \<Rightarrow> int" where
  "leapDays y = (if DaysInYear y = 366 then 1 else 0)"

definition validDate :: "int \<times> int \<times> int \<Rightarrow> bool" where
  "validDate ymd = (case ymd of (y, m, d) \<Rightarrow> 1 \<le> m \<and> m \<le> 12 \<and> 1 \<le> d \<and> d \<le> DaysInMonth y m)"

definition yearOf :: "string \<Rightarrow> int" where
  "yearOf s = digits (take 4 s)"

definition monthOf :: "string \<Rightarrow> int" where
  "monthOf s = digits (take 2 (drop 5 s))"

definition dayOf :: "string \<Rightarrow> int" where
  "dayOf s = digits (drop 8 s)"

definition wf_year :: "string \<Rightarrow> bool" where
  "wf_year yr = (length yr = 4 \<and> list_all isDigit yr)"

definition dayNumber :: "string \<Rightarrow> int" where
  "dayNumber s = MakeDay (yearOf s) (monthOf s - 1) (dayOf s)"

text \<open>
  \<open>mostRecent assets c d r\<close>: \<open>r\<close> is the most recent record of category \<open>c\<close> dated on or
  before \<open>d\<close>, dates being compared as the ISO strings they are; among several records
  of that same date it is the first of \<open>assets\<close>.
\<close>

definition mostRecent :: "asset list \<Rightarrow> asset_type \<Rightarrow> string \<Rightarrow> asset \<Rightarrow> bool" where
  "mostRecent assets c d r =
     (r \<in> set assets \<and> type r = c \<and> date r \<le> d
      \<and> (\<forall>a\<in>set assets. type a = c \<and> date a \<le> d \<longrightarrow> date a \<le> date r)
      \<and> find (\<lambda>a. type a = c \<and> date a = date r) assets = Some r)"



text \<open>
  The points of a calendar year and the points of earlier years, by the year number of
  their dates.
\<close>

definition pointsIn :: "point list \<Rightarrow> int \<Rightarrow> point list" where
  "pointsIn points y = filter (\<lambda>p. yearOf (date_p p) = y) points"

definition pointsBefore :: "point list \<Rightarrow> int \<Rightarrow> point list" where
  "pointsBefore points y = filter (\<lambda>p. yearOf (date_p p) < y) points"

text \<open>
  The local calendar. \<open>civil tza t (y, m, d) tod\<close>: in the time zone \<open>tza\<close> the instant \<open>t\<close>
  is the date \<open>y\<close>-\<open>m\<close>-\<open>d\<close>, \<open>tod\<close> milliseconds after midnight. \<open>monthsBefore y m k\<close> is the
  year and the month \<open>k\<close> months before month \<open>m\<close> of year \<open>y\<close>. \<open>carryDate y m d\<close> is day
  \<open>d\<close> of month \<open>m\<close> of year \<open>y\<close>, where a day beyond the end of the month is counted on
  into the following month: day 31 of February 2025 is 3 March 2025 (December has 31
  days, so a day up to 31 never leaves the year).
\<close>

definition civil :: "tz \<Rightarrow> int \<Rightarrow> int \<times> int \<times> int \<Rightarrow> int \<Rightarrow> bool" where
  "civil tza t ymd tod =
     (case ymd of (y, m, d) \<Rightarrow>
        validDate (y, m, d) \<and> 0 \<le> tod \<and> tod < msPerDay
        \<and> LocalTime tza t = MakeDate (MakeDay y (m - 1) d) tod)"

definition monthsBefore :: "int \<Rightarrow> int \<Rightarrow> int \<Rightarrow> int \<times> int" where
  "monthsBefore y m k = (y + (m - 1 - k) div 12, (m - 1 - k) mod 12 + 1)"

definition carryDate :: "int \<Rightarrow> int \<Rightarrow> int \<Rightarrow> int \<times> int \<times> int" where
  "carryDate y m d =
     (if d \<le> DaysInMonth y m then (y, m, d) else (y, m + 1, d - DaysInMonth y m))"

text \<open>
  The date of the cutoff of a chart period, from the year and month \<open>(yn, mn)\<close> of the
  first reading of the clock and the date \<open>(y, m, d)\<close> of the second: the day of the month
  \<open>d\<close> in the month 1, 3 or 6 months before month \<open>mn\<close> of year \<open>y\<close>, or in month \<open>m\<close> of
  the year 1 or 3 years before \<open>yn\<close>.
\<close>

definition cutoffCivil :: "period \<Rightarrow> int \<times> int \<Rightarrow> int \<times> int \<times> int \<Rightarrow> int \<times> int \<times> int" where
  "cutoffCivil chartPeriod nowYM cutDate =
     (case nowYM of (yn, mn) \<Rightarrow>
      case cutDate of (y, m, d) \<Rightarrow>
        (case chartPeriod of
           P1m \<Rightarrow> (case monthsBefore y mn 1 of (y', m') \<Rightarrow> carryDate y' m' d)
         | P3m \<Rightarrow> (case monthsBefore y mn 3 of (y', m') \<Rightarrow> carryDate y' m' d)
         | P6m \<Rightarrow> (case monthsBefore y mn 6 of (y', m') \<Rightarrow> carryDate y' m' d)
         | P1y \<Rightarrow> carryDate (yn - 1) m d
         | P3y \<Rightarrow> carryDate (yn - 3) m d
         | PAll \<Rightarrow> (y, m, d)))"

subsection \<open>Example ledgers\<close>

text \<open>
  \<open>exampleAssets\<close> is the initial ledger of the component (the notes, which no
  computation reads, are left empty). \<open>cashLedger\<close> adds cash records, two of them of one
  category and date with the same value; \<open>sameDayLedger\<close> has two records of one category
  and date with different values. \<open>fractionLedger\<close> has amounts and rates with decimal
  fractions (500.25 and 250.35 at the rate 31.8), each the double nearest to the decimal.
  \<open>cashTimeline\<close> is the timeline of \<open>cashLedger\<close>
  (lemma \<open>timelineData_cashLedger\<close>). \<open>tiePoints\<close> is a timeline whose first two points are
  equally far from 2025-12-05. \<open>taipei\<close> is the time zone UTC+8, without daylight saving.
\<close>

definition exampleAssets :: "asset list" where
  "exampleAssets =
     [\<lparr> id_a = ''1'', date = ''2025-01-05'', type = Us_stock, amount = 78130, exchangeRate = 65 / 2, note_a = '''' \<rparr>,
      \<lparr> id_a = ''2'', date = ''2025-01-05'', type = Tw_stock, amount = 107947, exchangeRate = 1, note_a = '''' \<rparr>,
      \<lparr> id_a = ''3'', date = ''2026-01-05'', type = Us_stock, amount = 94937, exchangeRate = 65 / 2, note_a = '''' \<rparr>,
      \<lparr> id_a = ''4'', date = ''2026-01-05'', type = Tw_stock, amount = 147107, exchangeRate = 1, note_a = '''' \<rparr>]"

definition cashLedger :: "asset list" where
  "cashLedger =
     [\<lparr> id_a = ''5'', date = ''2025-06-30'', type = Us_cash, amount = 1000, exchangeRate = 32, note_a = '''' \<rparr>,
      \<lparr> id_a = ''6'', date = ''2025-03-10'', type = Tw_cash, amount = 50000, exchangeRate = 1, note_a = '''' \<rparr>,
      \<lparr> id_a = ''7'', date = ''2025-03-10'', type = Tw_cash, amount = 25000, exchangeRate = 2, note_a = '''' \<rparr>]
     @ exampleAssets"

definition sameDayLedger :: "asset list" where
  "sameDayLedger =
     [\<lparr> id_a = ''a'', date = ''2025-01-05'', type = Tw_stock, amount = 100, exchangeRate = 1, note_a = '''' \<rparr>,
      \<lparr> id_a = ''b'', date = ''2025-01-05'', type = Tw_stock, amount = 200, exchangeRate = 1, note_a = '''' \<rparr>]"

definition fractionLedger :: "asset list" where
  "fractionLedger =
     [\<lparr> id_a = ''1'', date = ''2025-01-05'', type = Tw_stock, amount = 107947, exchangeRate = 1, note_a = '''' \<rparr>,
      \<lparr> id_a = ''2'', date = ''2025-01-05'', type = Us_stock, amount = rnd (50025 / 100),
        exchangeRate = rnd (318 / 10), note_a = '''' \<rparr>,
      \<lparr> id_a = ''3'', date = ''2025-01-05'', type = Tw_cash, amount = 50000, exchangeRate = 1, note_a = '''' \<rparr>,
      \<lparr> id_a = ''4'', date = ''2025-01-05'', type = Us_cash, amount = rnd (25035 / 100),
        exchangeRate = rnd (318 / 10), note_a = '''' \<rparr>]"

definition cashTimeline :: "point list" where
  "cashTimeline =
     [\<lparr> date_p = ''2025-01-05'', total = 2647172, investment = 2647172, us_inv = 2539225, tw_inv = 107947 \<rparr>,
      \<lparr> date_p = ''2025-03-10'', total = 2697172, investment = 2647172, us_inv = 2539225, tw_inv = 107947 \<rparr>,
      \<lparr> date_p = ''2025-06-30'', total = 2729172, investment = 2647172, us_inv = 2539225, tw_inv = 107947 \<rparr>,
      \<lparr> date_p = ''2026-01-05'', total = 6629119 / 2, investment = 6465119 / 2, us_inv = 6170905 / 2,
        tw_inv = 147107 \<rparr>]"


definition taipei :: tz where
  "taipei = (\<lambda>t isUTC. 28800000)"



definition marchPoints :: "point list" where
  "marchPoints =
     [\<lparr> date_p = ''2025-02-27'', total = 100, investment = 100, us_inv = 0, tw_inv = 100 \<rparr>,
      \<lparr> date_p = ''2025-03-02'', total = 110, investment = 110, us_inv = 0, tw_inv = 110 \<rparr>,
      \<lparr> date_p = ''2025-03-03'', total = 120, investment = 120, us_inv = 0, tw_inv = 120 \<rparr>,
      \<lparr> date_p = ''2025-03-04'', total = 130, investment = 130, us_inv = 0, tw_inv = 130 \<rparr>,
      \<lparr> date_p = ''2025-03-31'', total = 140, investment = 140, us_inv = 0, tw_inv = 140 \<rparr>]"

section \<open>Numbers: rounding to a double\<close>

text \<open>
  The binary exponent brackets its argument; a double is rounded to itself
  (\<open>rnd_exact\<close>), every rounded number is a double (\<open>rnd_rep\<close>), so rounding twice is
  rounding once; an integer below \<open>2 ^ 53\<close> in magnitude is a double.
\<close>

lemma two_powi_pos: "0 < (2::rat) powi n"
  by (simp add: power_int_def)

lemma two_powi_nat: "0 \<le> n \<Longrightarrow> (2::rat) powi n = of_int (2 ^ nat n)"
  by (simp add: power_int_def)

lemma two_powi_less_iff: "(2::rat) powi m < 2 powi n \<longleftrightarrow> m < n"
proof
  assume "(2::rat) powi m < 2 powi n"
  show "m < n"
  proof (rule ccontr)
    assume "\<not> m < n"
    then have "n \<le> m" by simp
    then have "(2::rat) powi n \<le> 2 powi m"
      by (intro power_int_increasing) simp_all
    with \<open>(2::rat) powi m < 2 powi n\<close> show False by simp
  qed
next
  assume "m < n"
  then show "(2::rat) powi m < 2 powi n"
    by (intro power_int_strict_increasing) simp_all
qed

lemma bitlen_pos: "0 < n \<Longrightarrow> 0 < bitlen n"
proof (rule ccontr)
  assume n: "0 < n" and "\<not> 0 < bitlen n"
  then have "nat (bitlen n) = 0" by simp
  with bitlen_bounds [OF n] have "n < 1" by simp
  with n show False by simp
qed

lemma two_powi_add: "(2::rat) powi (m + n) = 2 powi m * 2 powi n"
  by (rule power_int_add) simp

lemma two_powi_diff: "(2::rat) powi (m - n) = 2 powi m / 2 powi n"
  by (rule power_int_diff) simp

lemma ilog2_lower:
  assumes "0 < a"
  shows "2 powi (ilog2 a) \<le> a"
proof (cases "1 \<le> a")
  case True
  let ?n = "\<lfloor>a\<rfloor>"
  have n: "0 < ?n" using True by simp
  from bitlen_bounds [OF n] have b: "2 ^ nat (bitlen ?n - 1) \<le> ?n" by simp
  have "0 \<le> bitlen ?n - 1"
    using bitlen_pos [OF n] by simp
  then have "(2::rat) powi (bitlen ?n - 1) = of_int (2 ^ nat (bitlen ?n - 1))"
    by (rule two_powi_nat)
  also have "\<dots> \<le> of_int ?n"
    using b by (simp only: of_int_le_iff)
  also have "\<dots> \<le> a"
    by simp
  finally show ?thesis
    using True by (simp add: ilog2_def)
next
  case False
  let ?r = "1 / a"
  let ?n = "\<lceil>?r\<rceil>"
  let ?k = "bitlen (?n - 1)"
  have r1: "1 < ?r" using False assms by simp
  then have n2: "2 \<le> ?n"
    by (simp add: less_ceiling_iff le_ceiling_iff)
  then have n: "0 < ?n - 1" by simp
  from bitlen_bounds [OF n] have b: "?n - 1 < 2 ^ nat ?k" by simp
  have k0: "0 \<le> ?k" by (rule bitlen_nonneg)
  have "?r \<le> of_int ?n" by simp
  also have "of_int ?n \<le> (of_int (2 ^ nat ?k) :: rat)"
  proof -
    have "?n \<le> 2 ^ nat ?k" using b by simp
    then show ?thesis by (simp only: of_int_le_iff)
  qed
  also have "\<dots> = 2 powi ?k"
    using two_powi_nat [OF k0] by simp
  finally have "1 / a \<le> 2 powi ?k" .
  then have "1 \<le> 2 powi ?k * a"
    using assms by (simp add: field_simps)
  then have "1 / 2 powi ?k \<le> a"
    using two_powi_pos [of ?k] by (simp add: field_simps)
  moreover have "(2::rat) powi (- ?k) = 1 / 2 powi ?k"
    by (rule power_int_minus_divide)
  moreover have "ilog2 a = - ?k"
    using False by (simp add: ilog2_def)
  ultimately show ?thesis
    by (simp only:)
qed

lemma ilog2_upper:
  assumes "0 < a"
  shows "a < 2 powi (ilog2 a + 1)"
proof (cases "1 \<le> a")
  case True
  let ?n = "\<lfloor>a\<rfloor>"
  have n: "0 < ?n" using True by simp
  from bitlen_bounds [OF n] have b: "?n < 2 ^ nat (bitlen ?n)" by simp
  have k0: "0 \<le> bitlen ?n" by (rule bitlen_nonneg)
  have "a < of_int ?n + 1" by linarith
  also have "\<dots> = of_int (?n + 1)" by simp
  also have "\<dots> \<le> (of_int (2 ^ nat (bitlen ?n)) :: rat)"
  proof -
    have "?n + 1 \<le> 2 ^ nat (bitlen ?n)" using b by simp
    then show ?thesis by (simp only: of_int_le_iff)
  qed
  also have "\<dots> = 2 powi (bitlen ?n)"
    using two_powi_nat [OF k0] by simp
  finally show ?thesis
    using True by (simp add: ilog2_def)
next
  case False
  let ?r = "1 / a"
  let ?n = "\<lceil>?r\<rceil>"
  let ?k = "bitlen (?n - 1)"
  have r1: "1 < ?r" using False assms by simp
  then have n2: "2 \<le> ?n"
    by (simp add: less_ceiling_iff le_ceiling_iff)
  then have n: "0 < ?n - 1" by simp
  from bitlen_bounds [OF n] have b: "2 ^ nat (?k - 1) \<le> ?n - 1" by simp
  have k1: "0 \<le> ?k - 1"
    using bitlen_pos [OF n] by simp
  have "2 powi (?k - 1) = (of_int (2 ^ nat (?k - 1)) :: rat)"
    by (rule two_powi_nat [OF k1])
  also have "\<dots> \<le> of_int (?n - 1)"
    using b by (simp only: of_int_le_iff)
  also have "\<dots> < ?r"
    by (simp add: ceiling_correct)
  finally have "2 powi (?k - 1) < 1 / a" .
  then have "a * 2 powi (?k - 1) < 1"
    using assms by (simp add: field_simps)
  then have "a < 1 / 2 powi (?k - 1)"
    using two_powi_pos [of "?k - 1"] by (simp add: field_simps)
  moreover have "(2::rat) powi (- (?k - 1)) = 1 / 2 powi (?k - 1)"
    by (rule power_int_minus_divide)
  moreover have "ilog2 a + 1 = - (?k - 1)"
    using False by (simp add: ilog2_def)
  ultimately show ?thesis
    by (simp only:)
qed

lemma roundHalfEven_of_int: "roundHalfEven (of_int n) = n"
  by (simp add: roundHalfEven_def)

lemma roundHalfEven_le:
  assumes "t \<le> of_int n"
  shows "roundHalfEven t \<le> n"
proof -
  have f: "\<lfloor>t\<rfloor> \<le> n" using assms by (simp add: floor_le_iff)
  show ?thesis
  proof (cases "t = of_int \<lfloor>t\<rfloor>")
    case True
    then show ?thesis using f by (simp add: roundHalfEven_def Let_def)
  next
    case False
    then have "of_int \<lfloor>t\<rfloor> < t" by linarith
    with assms have "of_int \<lfloor>t\<rfloor> < (of_int n :: rat)" by linarith
    then have "\<lfloor>t\<rfloor> < n" by (simp only: of_int_less_iff)
    then show ?thesis by (simp add: roundHalfEven_def Let_def)
  qed
qed

lemma roundHalfEven_nonneg: "0 \<le> t \<Longrightarrow> 0 \<le> roundHalfEven t"
  by (simp add: roundHalfEven_def Let_def)


lemma rnd_exact:
  assumes m: "\<bar>m\<bar> < 2 ^ 53" and q: "- 1074 \<le> q"
  shows "rnd (of_int m * 2 powi q) = of_int m * 2 powi q"
proof (cases "m = 0")
  case True
  then show ?thesis by (simp add: rnd_def)
next
  case False
  define x :: rat where "x = of_int m * 2 powi q"
  have x0: "x \<noteq> 0"
    using False by (simp add: x_def)
  have a: "\<bar>x\<bar> = of_int \<bar>m\<bar> * 2 powi q"
    using two_powi_pos [of q] by (simp add: x_def abs_mult)
  define e where "e = ilog2 \<bar>x\<bar>"
  define Q where "Q = max (e - 52) (- 1074)"
  have "2 powi e \<le> \<bar>x\<bar>"
    unfolding e_def using x0 by (intro ilog2_lower) simp
  also have "\<bar>x\<bar> < of_int (2 ^ 53) * 2 powi q"
  proof -
    have "(of_int \<bar>m\<bar> :: rat) < of_int (2 ^ 53)"
      using m by (simp only: of_int_less_iff)
    then show ?thesis
      unfolding a using two_powi_pos [of q] by (simp only: mult_less_cancel_right_pos)
  qed
  also have "\<dots> = 2 powi (53 + q)"
    by (simp add: two_powi_add)
  finally have "e < 53 + q"
    by (simp only: two_powi_less_iff)
  then have Qq: "0 \<le> q - Q"
    using q by (simp add: Q_def)
  have split: "(2::rat) powi q = 2 powi (q - Q) * 2 powi Q"
    using two_powi_add [of "q - Q" Q] by simp
  have "\<bar>x\<bar> / 2 powi Q = of_int \<bar>m\<bar> * 2 powi (q - Q)"
    unfolding a using two_powi_pos [of Q] by (simp add: split)
  also have "\<dots> = of_int (\<bar>m\<bar> * 2 ^ nat (q - Q))"
    by (simp add: two_powi_nat [OF Qq])
  finally have r: "roundHalfEven (\<bar>x\<bar> / 2 powi Q) = \<bar>m\<bar> * 2 ^ nat (q - Q)"
    by (simp only: roundHalfEven_of_int)
  have "rnd x = sgn x * of_int (\<bar>m\<bar> * 2 ^ nat (q - Q)) * 2 powi Q"
    using x0 r by (simp add: rnd_def Let_def e_def Q_def)
  also have "\<dots> = sgn x * (of_int \<bar>m\<bar> * (2 powi (q - Q) * 2 powi Q))"
    by (simp add: two_powi_nat [OF Qq])
  also have "\<dots> = sgn x * \<bar>x\<bar>"
    by (simp only: split [symmetric] a)
  also have "\<dots> = x"
    by (rule mult_sgn_abs)
  finally show ?thesis
    by (simp only: x_def)
qed

lemma rnd_rep: "\<exists>m q. rnd x = of_int m * 2 powi q \<and> \<bar>m\<bar> < 2 ^ 53 \<and> - 1074 \<le> q"
proof (cases "x = 0")
  case True
  have "rnd x = of_int 0 * 2 powi 0 \<and> \<bar>0::int\<bar> < 2 ^ 53 \<and> - 1074 \<le> (0::int)"
    using True by (simp add: rnd_def)
  then show ?thesis by blast
next
  case False
  define e where "e = ilog2 \<bar>x\<bar>"
  define Q where "Q = max (e - 52) (- 1074)"
  define M where "M = roundHalfEven (\<bar>x\<bar> / 2 powi Q)"
  define s :: int where "s = (if 0 < x then 1 else - 1)"
  have sx: "sgn x = of_int s"
    using False by (simp add: s_def sgn_if)
  have sabs: "\<bar>s\<bar> = 1"
    by (simp add: s_def)
  have r: "rnd x = of_int (s * M) * 2 powi Q"
    using False by (simp add: rnd_def Let_def e_def Q_def M_def sx)
  have Q1: "- 1074 \<le> Q" and Q2: "e + 1 - Q \<le> 53"
    by (simp_all add: Q_def)
  have M0: "0 \<le> M"
    unfolding M_def using two_powi_pos [of Q] by (intro roundHalfEven_nonneg) simp
  have "\<bar>x\<bar> < 2 powi (e + 1)"
    unfolding e_def using False by (intro ilog2_upper) simp
  then have "\<bar>x\<bar> / 2 powi Q < 2 powi (e + 1) / 2 powi Q"
    using two_powi_pos [of Q] by (simp only: divide_strict_right_mono)
  also have "\<dots> = 2 powi (e + 1 - Q)"
    by (simp only: two_powi_diff)
  also have "\<dots> \<le> 2 powi 53"
    using Q2 by (intro power_int_increasing) simp_all
  also have "\<dots> = of_int (2 ^ 53)"
    by simp
  finally have "\<bar>x\<bar> / 2 powi Q \<le> of_int (2 ^ 53)"
    by simp
  then have M1: "M \<le> 2 ^ 53"
    unfolding M_def by (rule roundHalfEven_le)
  show ?thesis
  proof (cases "M = 2 ^ 53")
    case True
    have "(2::rat) powi (Q + 1) = 2 powi Q * 2"
      by (rule power_int_add_1) simp
    then have "rnd x = of_int (s * 2 ^ 52) * 2 powi (Q + 1)"
      unfolding r True by simp
    moreover have "\<bar>s * 2 ^ 52\<bar> < (2 ^ 53 :: int)"
      by (simp add: abs_mult sabs)
    moreover have "- 1074 \<le> Q + 1"
      using Q1 by simp
    ultimately show ?thesis by blast
  next
    case False
    then have "\<bar>s * M\<bar> < 2 ^ 53"
      using M0 M1 by (simp add: abs_mult sabs)
    with r Q1 show ?thesis by blast
  qed
qed

lemma rnd_idem: "rnd (rnd x) = rnd x"
proof -
  obtain m q where "rnd x = of_int m * 2 powi q" "\<bar>m\<bar> < 2 ^ 53" "- 1074 \<le> q"
    using rnd_rep by blast
  then show ?thesis
    by (simp only: rnd_exact)
qed

lemma rnd_of_int: "\<bar>n\<bar> < 2 ^ 53 \<Longrightarrow> rnd (of_int n) = of_int n"
  using rnd_exact [of n 0] by simp

lemma rnd_0: "rnd 0 = 0"
  by (simp add: rnd_def)

lemma dadd_0: "dadd 0 (rnd x) = rnd x"
  by (simp add: dadd_def rnd_idem)

lemma representable_of_int: "\<bar>n\<bar> < 2 ^ 53 \<Longrightarrow> representable (of_int n)"
  by (simp add: representable_def rnd_of_int)

lemma representable_rnd: "representable (rnd x)"
  by (simp add: representable_def rnd_idem)

section \<open>Arrays: the set of dates and the stable sort\<close>

lemma set_foldl_setAdd: "set (foldl setAdd acc xs) = set acc \<union> set xs"
  by (induction xs arbitrary: acc) (auto simp: setAdd_def)

lemma distinct_foldl_setAdd: "distinct acc \<Longrightarrow> distinct (foldl setAdd acc xs)"
  by (induction xs arbitrary: acc) (auto simp: setAdd_def)

lemma set_newSet: "set (newSet xs) = set xs"
  by (simp add: newSet_def set_foldl_setAdd)

lemma distinct_newSet: "distinct (newSet xs)"
  by (simp add: newSet_def distinct_foldl_setAdd)

lemma set_insertBy: "set (insertBy cmp x ys) = insert x (set ys)"
  by (induction ys) auto

lemma set_sortBy: "set (sortBy cmp xs) = set xs"
  by (induction xs) (auto simp: set_insertBy)

lemma insertBy_not_Nil: "insertBy cmp x ys \<noteq> []"
  by (cases ys) auto

lemma sortBy_Nil_iff: "sortBy cmp xs = [] \<longleftrightarrow> xs = []"
  by (cases xs) (auto simp: insertBy_not_Nil)

lemma hd_insertBy:
  "hd (insertBy cmp x ys) = (if ys = [] \<or> cmp x (hd ys) \<le> 0 then x else hd ys)"
  by (cases ys) auto

lemma hd_sortBy_firstMax:
  assumes "xs \<noteq> []" and "\<forall>a\<in>set xs. \<forall>b\<in>set xs. cmp a b = k b - k a"
  shows "firstMax k xs (hd (sortBy cmp xs))"
  using assms
proof (induction xs)
  case Nil
  then show ?case by simp
next
  case (Cons x xs)
  show ?case
  proof (cases "xs = []")
    case True
    then show ?thesis
      by (simp add: firstMax_def)
  next
    case False
    let ?r = "hd (sortBy cmp xs)"
    have cmp: "\<forall>a\<in>set xs. \<forall>b\<in>set xs. cmp a b = k b - k a"
      using Cons.prems(2) by simp
    have fm: "firstMax k xs ?r"
      using Cons.IH [OF False cmp] .
    then have rin: "?r \<in> set xs" and le: "\<forall>a\<in>set xs. k a \<le> k ?r"
      and fnd: "find (\<lambda>a. k a = k ?r) xs = Some ?r"
      unfolding firstMax_def by simp_all
    have c: "cmp x ?r = k ?r - k x"
      using Cons.prems(2) rin by simp
    have ne: "sortBy cmp xs \<noteq> []"
      using False by (simp add: sortBy_Nil_iff)
    show ?thesis
    proof (cases "k ?r \<le> k x")
      case True
      then have "hd (sortBy cmp (x # xs)) = x"
        using c by (simp add: hd_insertBy)
      moreover have "\<forall>a\<in>set xs. k a \<le> k x"
        using le True by auto
      ultimately show ?thesis
        by (simp add: firstMax_def)
    next
      case False
      then have h: "hd (sortBy cmp (x # xs)) = ?r"
        using c ne by (simp add: hd_insertBy)
      show ?thesis
        unfolding h firstMax_def using rin le fnd False by auto
    qed
  qed
qed

lemma find_filter: "find Q (filter P xs) = find (\<lambda>a. P a \<and> Q a) xs"
  by (induction xs) auto

lemma find_cong_set: "(\<And>a. a \<in> set xs \<Longrightarrow> P a = Q a) \<Longrightarrow> find P xs = find Q xs"
  by (induction xs) auto

lemma sorted_le_last: "sorted xs \<Longrightarrow> x \<in> set xs \<Longrightarrow> x \<le> last (xs :: 'a :: linorder list)"
  by (induction xs) auto

lemma nth_last: "xs \<noteq> [] \<Longrightarrow> xs ! (length xs - 1) = last xs"
  by (simp add: last_conv_nth)

lemma nth_first: "xs \<noteq> [] \<Longrightarrow> xs ! 0 = hd xs"
  by (simp add: hd_conv_nth)

section \<open>Calendar arithmetic\<close>

lemma div_step:
  assumes "0 < (k::int)"
  shows "(a + 1) div k = a div k + (if (a + 1) mod k = 0 then 1 else 0)"
proof -
  define q r where "q = a div k" and "r = a mod k"
  have a: "a = k * q + r" and r: "0 \<le> r" "r < k"
    using assms by (simp_all add: q_def r_def)
  show ?thesis
  proof (cases "r = k - 1")
    case True
    then have e: "a + 1 = k * (q + 1) + 0"
      using a by (simp add: algebra_simps)
    have "(a + 1) div k = q + 1"
      by (rule int_div_pos_eq [OF e]) (use assms in simp_all)
    moreover have "(a + 1) mod k = 0"
      by (rule int_mod_pos_eq [OF e]) (use assms in simp_all)
    ultimately show ?thesis
      by (simp add: q_def)
  next
    case False
    have e: "a + 1 = k * q + (r + 1)"
      using a by simp
    have r1: "0 \<le> r + 1" "r + 1 < k"
      using r False by simp_all
    have "(a + 1) div k = q"
      by (rule int_div_pos_eq [OF e r1])
    moreover have "(a + 1) mod k = r + 1"
      by (rule int_mod_pos_eq [OF e r1])
    ultimately show ?thesis
      using r by (simp add: q_def)
  qed
qed

lemma mod_shift:
  assumes "(k::int) dvd c"
  shows "((y - c) mod k = 0) = (y mod k = 0)"
  using dvd_diff_left_iff [OF assms, of y] by (simp add: mod_eq_0_iff_dvd)

lemma mod_coarse:
  assumes "(k::int) dvd m" and "y mod m = 0"
  shows "y mod k = 0"
  using assms dvd_trans [of k m y] by (simp add: mod_eq_0_iff_dvd)

lemma DaysInYear_eq:
  "DaysInYear y = 365 + (if y mod 4 = 0 then 1 else 0) - (if y mod 100 = 0 then 1 else 0)
     + (if y mod 400 = 0 then 1 else 0)"
proof -
  have "y mod 100 = 0 \<Longrightarrow> y mod 4 = 0"
    by (rule mod_coarse [of 4 100]) simp_all
  moreover have "y mod 400 = 0 \<Longrightarrow> y mod 100 = 0"
    by (rule mod_coarse [of 100 400]) simp_all
  ultimately show ?thesis
    by (auto simp: DaysInYear_def)
qed

lemma DayFromYear_step: "DayFromYear (y + 1) = DayFromYear y + DaysInYear y"
proof -
  have a: "(y + 1 - 1969) div 4 = (y - 1969) div 4 + (if (y - 1968) mod 4 = 0 then 1 else 0)"
    using div_step [of 4 "y - 1969"] by (simp add: algebra_simps)
  have b: "(y + 1 - 1901) div 100 = (y - 1901) div 100 + (if (y - 1900) mod 100 = 0 then 1 else 0)"
    using div_step [of 100 "y - 1901"] by (simp add: algebra_simps)
  have c: "(y + 1 - 1601) div 400 = (y - 1601) div 400 + (if (y - 1600) mod 400 = 0 then 1 else 0)"
    using div_step [of 400 "y - 1601"] by (simp add: algebra_simps)
  have m4: "((y - 1968) mod 4 = 0) = (y mod 4 = 0)"
    by (rule mod_shift) simp
  have m100: "((y - 1900) mod 100 = 0) = (y mod 100 = 0)"
    by (rule mod_shift) simp
  have m400: "((y - 1600) mod 400 = 0) = (y mod 400 = 0)"
    by (rule mod_shift) simp
  have "DayFromYear (y + 1) = 365 * (y + 1 - 1970) + (y + 1 - 1969) div 4 - (y + 1 - 1901) div 100
          + (y + 1 - 1601) div 400"
    by (simp only: DayFromYear_def)
  also have "\<dots> = DayFromYear y + DaysInYear y"
    unfolding a b c m4 m100 m400 DaysInYear_eq DayFromYear_def by simp
  finally show ?thesis .
qed

lemma DaysInYear_ge: "365 \<le> DaysInYear y"
  by (simp add: DaysInYear_def)

lemma DaysInYear_le: "DaysInYear y \<le> 366"
  by (simp add: DaysInYear_def)

lemma DayFromYear_next: "y < y' \<Longrightarrow> DayFromYear y + DaysInYear y \<le> DayFromYear y'"
proof (induction y' rule: int_gr_induct)
  case base
  then show ?case by (simp add: DayFromYear_step)
next
  case (step i)
  have "DayFromYear i \<le> DayFromYear (i + 1)"
    using DaysInYear_ge [of i] by (simp add: DayFromYear_step)
  with step show ?case by linarith
qed

lemma DayFromYear_mono: "y \<le> y' \<Longrightarrow> DayFromYear y \<le> DayFromYear y'"
  using DayFromYear_next [of y y'] DaysInYear_ge [of y]
  by (cases "y = y'") auto

lemma month_cases:
  assumes "1 \<le> (m::int)" "m \<le> 12"
  shows "m = 1 \<or> m = 2 \<or> m = 3 \<or> m = 4 \<or> m = 5 \<or> m = 6 \<or> m = 7 \<or> m = 8 \<or> m = 9 \<or> m = 10
         \<or> m = 11 \<or> m = 12"
  using assms by arith

lemma monthStart_next:
  assumes "1 \<le> m" "m \<le> 11"
  shows "monthStart (leapDays y) m = monthStart (leapDays y) (m - 1) + DaysInMonth y m"
proof -
  have "m = 1 \<or> m = 2 \<or> m = 3 \<or> m = 4 \<or> m = 5 \<or> m = 6 \<or> m = 7 \<or> m = 8 \<or> m = 9 \<or> m = 10
         \<or> m = 11 \<or> m = 12"
    using assms by (intro month_cases) simp_all
  with assms(2) show ?thesis
    by (elim disjE) (simp_all add: monthStart_def DaysInMonth_def leapDays_def)
qed

lemma DaysInMonth_pos: "28 \<le> DaysInMonth y m"
  by (simp add: DaysInMonth_def)

lemma monthStart_mono:
  assumes "0 \<le> a" "a \<le> b" "b \<le> 11"
  shows "monthStart (leapDays y) a \<le> monthStart (leapDays y) b"
  using assms(2,3)
proof (induction b rule: int_ge_induct)
  case base
  then show ?case by simp
next
  case (step i)
  have "monthStart (leapDays y) (i + 1) = monthStart (leapDays y) i + DaysInMonth y (i + 1)"
    using monthStart_next [of "i + 1" y] step.hyps step.prems assms(1) by simp
  with step DaysInMonth_pos [of y "i + 1"] show ?case
    by simp
qed

lemma monthStart_last: "monthStart (leapDays y) 11 + DaysInMonth y 12 = DaysInYear y"
  by (simp add: monthStart_def DaysInMonth_def leapDays_def DaysInYear_def)

lemma dayInYear_bounds:
  assumes "1 \<le> m" "m \<le> 12" "1 \<le> d" "d \<le> DaysInMonth y m"
  shows "0 \<le> monthStart (leapDays y) (m - 1) + d - 1"
    and "monthStart (leapDays y) (m - 1) + d - 1 < DaysInYear y"
proof -
  have "monthStart (leapDays y) 0 \<le> monthStart (leapDays y) (m - 1)"
    using assms by (intro monthStart_mono) simp_all
  then show "0 \<le> monthStart (leapDays y) (m - 1) + d - 1"
    using assms(3) by (simp add: monthStart_def)
  show "monthStart (leapDays y) (m - 1) + d - 1 < DaysInYear y"
  proof (cases "m = 12")
    case True
    then show ?thesis
      using assms(4) monthStart_last [of y] by simp
  next
    case False
    then have "monthStart (leapDays y) m = monthStart (leapDays y) (m - 1) + DaysInMonth y m"
      using assms by (intro monthStart_next) simp_all
    moreover have "monthStart (leapDays y) m \<le> monthStart (leapDays y) 11"
      using assms False by (intro monthStart_mono) simp_all
    ultimately show ?thesis
      using assms(4) monthStart_last [of y] DaysInMonth_pos [of y 12] by linarith
  qed
qed

lemma dayInYear_mono:
  assumes "1 \<le> m" "m' \<le> 12" "1 \<le> d'" "d \<le> DaysInMonth y m"
    and "m < m' \<or> (m = m' \<and> d < d')"
  shows "monthStart (leapDays y) (m - 1) + d < monthStart (leapDays y) (m' - 1) + d'"
  using assms(5)
proof
  assume lt: "m < m'"
  have "monthStart (leapDays y) m = monthStart (leapDays y) (m - 1) + DaysInMonth y m"
    using assms lt by (intro monthStart_next) simp_all
  moreover have "monthStart (leapDays y) m \<le> monthStart (leapDays y) (m' - 1)"
    using assms lt by (intro monthStart_mono) simp_all
  ultimately show ?thesis
    using assms(3,4) by linarith
next
  assume "m = m' \<and> d < d'"
  then show ?thesis by simp
qed

lemma MakeDay_valid:
  assumes "1 \<le> m" "m \<le> 12"
  shows "MakeDay y (m - 1) d = DayFromYear y + monthStart (leapDays y) (m - 1) + d - 1"
proof -
  have "(m - 1) div 12 = 0" "(m - 1) mod 12 = m - 1"
    using assms by simp_all
  then show ?thesis
    by (simp add: MakeDay_def Let_def leapDays_def)
qed

lemma MakeDay_strict_mono:
  assumes v: "validDate (y, m, d)" and v': "validDate (y', m', d')"
    and lt: "y < y' \<or> (y = y' \<and> (m < m' \<or> (m = m' \<and> d < d')))"
  shows "MakeDay y (m - 1) d < MakeDay y' (m' - 1) d'"
proof -
  have m: "1 \<le> m" "m \<le> 12" "1 \<le> d" "d \<le> DaysInMonth y m"
    using v by (simp_all add: validDate_def)
  have m': "1 \<le> m'" "m' \<le> 12" "1 \<le> d'" "d' \<le> DaysInMonth y' m'"
    using v' by (simp_all add: validDate_def)
  have e: "MakeDay y (m - 1) d = DayFromYear y + monthStart (leapDays y) (m - 1) + d - 1"
    using m by (intro MakeDay_valid)
  have e': "MakeDay y' (m' - 1) d' = DayFromYear y' + monthStart (leapDays y') (m' - 1) + d' - 1"
    using m' by (intro MakeDay_valid)
  from lt show ?thesis
  proof
    assume yy: "y < y'"
    have "monthStart (leapDays y) (m - 1) + d - 1 < DaysInYear y"
      using m by (intro dayInYear_bounds)
    moreover have "0 \<le> monthStart (leapDays y') (m' - 1) + d' - 1"
      using m' by (intro dayInYear_bounds)
    moreover have "DayFromYear y + DaysInYear y \<le> DayFromYear y'"
      using yy by (rule DayFromYear_next)
    ultimately show ?thesis
      unfolding e e' by linarith
  next
    assume a: "y = y' \<and> (m < m' \<or> (m = m' \<and> d < d'))"
    then have "monthStart (leapDays y) (m - 1) + d < monthStart (leapDays y) (m' - 1) + d'"
      using m m' by (intro dayInYear_mono) simp_all
    with a show ?thesis
      unfolding e e' by simp
  qed
qed

lemma MakeDay_range:
  assumes v: "validDate (y, m, d)" and y: "0 \<le> y" "y \<le> 9999"
  shows "- 719528 \<le> MakeDay y (m - 1) d" and "MakeDay y (m - 1) d < 2932897"
proof -
  have m: "1 \<le> m" "m \<le> 12" "1 \<le> d" "d \<le> DaysInMonth y m"
    using v by (simp_all add: validDate_def)
  have e: "MakeDay y (m - 1) d = DayFromYear y + monthStart (leapDays y) (m - 1) + d - 1"
    using m by (intro MakeDay_valid)
  have lo: "DayFromYear 0 \<le> DayFromYear y"
    using y by (intro DayFromYear_mono)
  have hi: "DayFromYear y + DaysInYear y \<le> DayFromYear 10000"
    using y by (intro DayFromYear_next) simp
  have b1: "0 \<le> monthStart (leapDays y) (m - 1) + d - 1"
    using m by (intro dayInYear_bounds)
  have b2: "monthStart (leapDays y) (m - 1) + d - 1 < DaysInYear y"
    using m by (intro dayInYear_bounds)
  have c0: "DayFromYear 0 = - 719528"
    by (simp add: DayFromYear_def)
  have c1: "DayFromYear 10000 = 2932897"
    by (simp add: DayFromYear_def)
  show "- 719528 \<le> MakeDay y (m - 1) d"
    using lo b1 unfolding e c0 by linarith
  show "MakeDay y (m - 1) d < 2932897"
    using hi b2 unfolding e c1 by linarith
qed

lemma DayFromYear_cycles:
  assumes b: "0 \<le> b" "b \<le> 3" and c: "0 \<le> c" "c \<le> 24" and e: "0 \<le> e" "e \<le> 3"
  shows "DayFromYear (1601 + 400 * a + 100 * b + 4 * c + e)
         = - 134774 + 146097 * a + 36524 * b + 1461 * c + 365 * e"
proof -
  let ?y = "1601 + 400 * a + 100 * b + 4 * c + e"
  have d4: "(?y - 1969) div 4 = 100 * a + 25 * b + c - 92"
    by (rule int_div_pos_eq [of _ _ _ e]) (use e in simp_all)
  have d100: "(?y - 1901) div 100 = 4 * a + b - 3"
    by (rule int_div_pos_eq [of _ _ _ "4 * c + e"]) (use c e in simp_all)
  have d400: "(?y - 1601) div 400 = a"
    by (rule int_div_pos_eq [of _ _ _ "100 * b + 4 * c + e"]) (use b c e in simp_all)
  show ?thesis
    unfolding DayFromYear_def d4 d100 d400 by simp
qed

lemma DaysInYear_cycles:
  assumes b: "0 \<le> b" "b \<le> 3" and c: "0 \<le> c" "c \<le> 24"
    and cb: "c = 24 \<longrightarrow> b = 3"
  shows "DaysInYear (1601 + 400 * a + 100 * b + 4 * c + 3) = 366"
proof -
  let ?y = "1601 + 400 * a + 100 * b + 4 * c + 3"
  have m4: "?y mod 4 = 0"
    by (rule int_mod_pos_eq [of _ _ "401 + 100 * a + 25 * b + c"]) simp_all
  show ?thesis
  proof (cases "c = 24")
    case True
    with cb have "b = 3" by simp
    with True have "?y mod 400 = 0"
      by (intro int_mod_pos_eq [of _ _ "a + 5"]) simp_all
    then show ?thesis
      using m4 by (simp add: DaysInYear_def)
  next
    case False
    have "?y mod 100 = 4 + 4 * c"
      by (rule int_mod_pos_eq [of _ _ "16 + 4 * a + b"]) (use c False in simp_all)
    then have "?y mod 100 \<noteq> 0"
      using c by simp
    then show ?thesis
      using m4 by (simp add: DaysInYear_def)
  qed
qed

lemma YearFromDay_spec:
  "DayFromYear (YearFromDay n) \<le> n \<and> n < DayFromYear (YearFromDay n + 1)"
proof -
  define k where "k = n + 134774"
  define a where "a = k div 146097"
  define r where "r = k mod 146097"
  define b where "b = min 3 (r div 36524)"
  define r2 where "r2 = r - b * 36524"
  define c where "c = r2 div 1461"
  define r3 where "r3 = r2 mod 1461"
  define e where "e = min 3 (r3 div 365)"
  have y: "YearFromDay n = 1601 + 400 * a + 100 * b + 4 * c + e"
    by (simp only: YearFromDay_def Let_def k_def a_def r_def b_def r2_def c_def r3_def e_def)
  have k: "k = 146097 * a + r" and r: "0 \<le> r" "r < 146097"
    by (simp_all add: a_def r_def)
  define q m where "q = r div 36524" and "m = r mod 36524"
  have rq: "r = 36524 * q + m" and m: "0 \<le> m" "m < 36524"
    by (simp_all add: q_def m_def)
  have q: "0 \<le> q"
    using r by (simp add: q_def)
  have bq: "b = min 3 q"
    by (simp add: b_def q_def)
  have b: "0 \<le> b" "b \<le> 3"
    using q by (simp_all add: bq)
  have r2: "0 \<le> r2" "r2 \<le> 36524" and r2b: "b < 3 \<longrightarrow> r2 < 36524"
    using r rq m q unfolding r2_def bq min_def by (simp_all; linarith)+
  have r2c: "r2 = 1461 * c + r3" and r3: "0 \<le> r3" "r3 < 1461"
    by (simp_all add: c_def r3_def)
  have c: "0 \<le> c" "c \<le> 24"
    using r2 r2c r3 by linarith+
  define q3 m3 where "q3 = r3 div 365" and "m3 = r3 mod 365"
  have r3q: "r3 = 365 * q3 + m3" and m3: "0 \<le> m3" "m3 < 365"
    by (simp_all add: q3_def m3_def)
  have q3: "0 \<le> q3"
    using r3 by (simp add: q3_def)
  have eq: "e = min 3 q3"
    by (simp add: e_def q3_def)
  have e: "0 \<le> e" "e \<le> 3"
    using q3 by (simp_all add: eq)
  have er: "365 * e \<le> r3" and er': "e < 3 \<longrightarrow> r3 < 365 * e + 365"
    using r3q m3 q3 unfolding eq min_def by (simp_all; linarith)+
  have cb: "c = 24 \<and> r3 = 1460 \<longrightarrow> b = 3"
    using r2c r2b b by linarith
  have d: "DayFromYear (YearFromDay n) = - 134774 + 146097 * a + 36524 * b + 1461 * c + 365 * e"
    unfolding y by (rule DayFromYear_cycles [OF b c e])
  have n: "n = - 134774 + 146097 * a + 36524 * b + 1461 * c + r3"
    using k r2c by (simp add: k_def r2_def)
  have lo: "DayFromYear (YearFromDay n) \<le> n"
    unfolding d using n er by simp
  have hi: "n < DayFromYear (YearFromDay n) + DaysInYear (YearFromDay n)"
  proof (cases "e = 3 \<and> r3 = 1460")
    case True
    then have "c = 24 \<longrightarrow> b = 3"
      using cb by simp
    then have "DaysInYear (YearFromDay n) = 366"
      unfolding y using True DaysInYear_cycles [OF b c] by simp
    then show ?thesis
      unfolding d using n True by simp
  next
    case False
    then have "r3 < 365 * e + 365"
      using er' e r3 by linarith
    then show ?thesis
      unfolding d using n DaysInYear_ge [of "YearFromDay n"] by linarith
  qed
  show ?thesis
    using lo hi by (simp add: DayFromYear_step)
qed

lemma YearFromDay_unique:
  assumes "DayFromYear y \<le> n" "n < DayFromYear (y + 1)"
  shows "YearFromDay n = y"
proof (rule ccontr)
  assume ne: "YearFromDay n \<noteq> y"
  let ?Y = "YearFromDay n"
  have s: "DayFromYear ?Y \<le> n" "n < DayFromYear (?Y + 1)"
    using YearFromDay_spec [of n] by simp_all
  from ne consider "?Y < y" | "y < ?Y"
    by linarith
  then show False
  proof cases
    case 1
    then have "DayFromYear (?Y + 1) \<le> DayFromYear y"
      by (intro DayFromYear_mono) simp
    with s assms show False by linarith
  next
    case 2
    then have "DayFromYear (y + 1) \<le> DayFromYear ?Y"
      by (intro DayFromYear_mono) simp
    with s assms show False by linarith
  qed
qed

lemma Day_MakeDate:
  assumes "0 \<le> tod" "tod < msPerDay"
  shows "Day (MakeDate n tod) = n" and "TimeWithinDay (MakeDate n tod) = tod"
proof -
  have e: "MakeDate n tod = msPerDay * n + tod"
    by (simp add: MakeDate_def)
  show "Day (MakeDate n tod) = n"
    unfolding Day_def by (rule int_div_pos_eq [OF e assms])
  show "TimeWithinDay (MakeDate n tod) = tod"
    unfolding TimeWithinDay_def by (rule int_mod_pos_eq [OF e assms])
qed

lemma month_table:
  assumes m: "1 \<le> m" "m \<le> 12" and d: "1 \<le> d" "d \<le> DaysInMonth y m"
    and l: "l = leapDays y" and w: "w = monthStart l (m - 1) + d - 1"
  shows "(if w < 31 then 0
      else if w < 59 + l then 1
      else if w < 90 + l then 2
      else if w < 120 + l then 3
      else if w < 151 + l then 4
      else if w < 181 + l then 5
      else if w < 212 + l then 6
      else if w < 243 + l then 7
      else if w < 273 + l then 8
      else if w < 304 + l then 9
      else if w < 334 + l then 10
      else 11) = m - 1"
proof -
  have l01: "l = 0 \<or> l = 1"
    by (simp add: l leapDays_def)
  have dim: "DaysInMonth y 2 = 28 + l"
    by (simp add: DaysInMonth_def l leapDays_def)
  have "m = 1 \<or> m = 2 \<or> m = 3 \<or> m = 4 \<or> m = 5 \<or> m = 6 \<or> m = 7 \<or> m = 8 \<or> m = 9 \<or> m = 10
         \<or> m = 11 \<or> m = 12"
    using m by (rule month_cases)
  then show ?thesis
    using d l01 dim unfolding w
    by (elim disjE) (simp_all add: monthStart_def DaysInMonth_def)
qed

lemma date_table:
  assumes m: "1 \<le> m" "m \<le> 12"
    and l: "l = leapDays y" and w: "w = monthStart l (m - 1) + d - 1"
  shows "(if m - 1 = 0 then w + 1
      else if m - 1 = 1 then w - 30
      else if m - 1 = 2 then w - 58 - l
      else if m - 1 = 3 then w - 89 - l
      else if m - 1 = 4 then w - 119 - l
      else if m - 1 = 5 then w - 150 - l
      else if m - 1 = 6 then w - 180 - l
      else if m - 1 = 7 then w - 211 - l
      else if m - 1 = 8 then w - 242 - l
      else if m - 1 = 9 then w - 272 - l
      else if m - 1 = 10 then w - 303 - l
      else w - 333 - l) = d"
proof -
  have "m = 1 \<or> m = 2 \<or> m = 3 \<or> m = 4 \<or> m = 5 \<or> m = 6 \<or> m = 7 \<or> m = 8 \<or> m = 9 \<or> m = 10
         \<or> m = 11 \<or> m = 12"
    using m by (rule month_cases)
  then show ?thesis
    unfolding w by (elim disjE) (simp_all add: monthStart_def)
qed

lemma civil_roundtrip:
  assumes v: "validDate (y, m, d)" and tod: "0 \<le> tod" "tod < msPerDay"
  shows "YearFromTime (MakeDate (MakeDay y (m - 1) d) tod) = y"
    and "MonthFromTime (MakeDate (MakeDay y (m - 1) d) tod) = m - 1"
    and "DateFromTime (MakeDate (MakeDay y (m - 1) d) tod) = d"
    and "TimeWithinDay (MakeDate (MakeDay y (m - 1) d) tod) = tod"
proof -
  let ?t = "MakeDate (MakeDay y (m - 1) d) tod"
  let ?w = "monthStart (leapDays y) (m - 1) + d - 1"
  have m: "1 \<le> m" "m \<le> 12" and d: "1 \<le> d" "d \<le> DaysInMonth y m"
    using v by (simp_all add: validDate_def)
  have md: "MakeDay y (m - 1) d = DayFromYear y + ?w"
    using MakeDay_valid [OF m, of y d] by simp
  have w: "0 \<le> ?w" "?w < DaysInYear y"
    using dayInYear_bounds [OF m d] by simp_all
  have day: "Day ?t = DayFromYear y + ?w"
    using Day_MakeDate(1) [OF tod] md by simp
  show tw: "TimeWithinDay ?t = tod"
    by (rule Day_MakeDate(2) [OF tod])
  show yr: "YearFromTime ?t = y"
    unfolding YearFromTime_def day
    by (rule YearFromDay_unique) (use w in \<open>simp_all add: DayFromYear_step\<close>)
  have dw: "DayWithinYear ?t = ?w"
    unfolding DayWithinYear_def yr day by simp
  have lp: "InLeapYear ?t = leapDays y"
    unfolding InLeapYear_def yr leapDays_def ..
  show mo: "MonthFromTime ?t = m - 1"
    unfolding MonthFromTime_def Let_def dw lp
    by (rule month_table [OF m d refl refl])
  show "DateFromTime ?t = d"
    unfolding DateFromTime_def Let_def dw lp mo
    by (rule date_table [OF m refl refl])
qed

lemma DaysInMonth_le: "DaysInMonth y m \<le> 31"
  by (simp add: DaysInMonth_def)

lemma MakeDay_monthsBefore:
  "MakeDay y (m - 1 - k) d = MakeDay (fst (monthsBefore y m k)) (snd (monthsBefore y m k) - 1) d"
  "1 \<le> snd (monthsBefore y m k)" "snd (monthsBefore y m k) \<le> 12"
proof -
  let ?r = "(m - 1 - k) mod 12"
  have r: "0 \<le> ?r" "?r < 12"
    by simp_all
  then have "?r div 12 = 0" "?r mod 12 = ?r"
    by simp_all
  then show "MakeDay y (m - 1 - k) d = MakeDay (fst (monthsBefore y m k)) (snd (monthsBefore y m k) - 1) d"
    by (simp add: MakeDay_def monthsBefore_def Let_def)
  show "1 \<le> snd (monthsBefore y m k)" "snd (monthsBefore y m k) \<le> 12"
    using r by (simp_all add: monthsBefore_def)
qed

lemma carryDate_valid:
  assumes m: "1 \<le> m" "m \<le> 12" and d: "1 \<le> d" "d \<le> 31"
  shows "validDate (carryDate y m d)"
    and "MakeDay y (m - 1) d
          = MakeDay (fst (carryDate y m d)) (fst (snd (carryDate y m d)) - 1) (snd (snd (carryDate y m d)))"
proof -
  have c: "m = 1 \<or> m = 2 \<or> m = 3 \<or> m = 4 \<or> m = 5 \<or> m = 6 \<or> m = 7 \<or> m = 8 \<or> m = 9 \<or> m = 10
         \<or> m = 11 \<or> m = 12"
    using m by (rule month_cases)
  show "validDate (carryDate y m d)"
  proof (cases "d \<le> DaysInMonth y m")
    case True
    then show ?thesis
      using m d by (simp add: carryDate_def validDate_def)
  next
    case False
    have m11: "m \<le> 11"
      using False d c by (auto simp: DaysInMonth_def)
    have "28 \<le> DaysInMonth y m" "28 \<le> DaysInMonth y (m + 1)"
      by (rule DaysInMonth_pos)+
    then show ?thesis
      using False m m11 d by (simp add: carryDate_def validDate_def)
  qed
  show "MakeDay y (m - 1) d
          = MakeDay (fst (carryDate y m d)) (fst (snd (carryDate y m d)) - 1) (snd (snd (carryDate y m d)))"
  proof (cases "d \<le> DaysInMonth y m")
    case True
    then show ?thesis
      by (simp add: carryDate_def)
  next
    case False
    have m11: "m \<le> 11"
      using False d c by (auto simp: DaysInMonth_def)
    have "MakeDay y (m + 1 - 1) (d - DaysInMonth y m)
          = DayFromYear y + monthStart (leapDays y) (m + 1 - 1) + (d - DaysInMonth y m) - 1"
      using m m11 by (intro MakeDay_valid) simp_all
    also have "\<dots> = DayFromYear y + monthStart (leapDays y) (m - 1) + d - 1"
      using monthStart_next [OF m(1) m11, of y] by simp
    also have "\<dots> = MakeDay y (m - 1) d"
      using MakeDay_valid [OF m, of y d] by simp
    finally show ?thesis
      using False by (simp add: carryDate_def)
  qed
qed

lemma month_of_day:
  assumes w: "0 \<le> w" "w < DaysInYear y"
  shows "\<exists>m d. validDate (y, m, d) \<and> w = monthStart (leapDays y) (m - 1) + d - 1"
proof -
  define l where "l = leapDays y"
  have l01: "l = 0 \<or> l = 1"
    by (simp add: l_def leapDays_def)
  have diy: "DaysInYear y = 365 + l"
    using DaysInYear_ge [of y] DaysInYear_le [of y] by (simp add: l_def leapDays_def)
  have feb: "DaysInMonth y 2 = 28 + l"
    by (simp add: DaysInMonth_def l_def leapDays_def)
  have g: "validDate (y, m, w - monthStart l (m - 1) + 1) \<and> w = monthStart l (m - 1) + (w - monthStart l (m - 1) + 1) - 1"
    if "1 \<le> m" "m \<le> 12" "monthStart l (m - 1) \<le> w" "w < monthStart l (m - 1) + DaysInMonth y m" for m
    using that by (simp add: validDate_def)
  have "w < 31 \<or> (31 \<le> w \<and> w < 59 + l) \<or> (59 + l \<le> w \<and> w < 90 + l) \<or> (90 + l \<le> w \<and> w < 120 + l)
      \<or> (120 + l \<le> w \<and> w < 151 + l) \<or> (151 + l \<le> w \<and> w < 181 + l) \<or> (181 + l \<le> w \<and> w < 212 + l)
      \<or> (212 + l \<le> w \<and> w < 243 + l) \<or> (243 + l \<le> w \<and> w < 273 + l) \<or> (273 + l \<le> w \<and> w < 304 + l)
      \<or> (304 + l \<le> w \<and> w < 334 + l) \<or> (334 + l \<le> w \<and> w < 365 + l)"
    using w diy by arith
  then have "\<exists>m. 1 \<le> m \<and> m \<le> 12 \<and> monthStart l (m - 1) \<le> w \<and> w < monthStart l (m - 1) + DaysInMonth y m"
  proof (elim disjE)
    assume "w < 31"
    then show ?thesis using w(1) by (intro exI [of _ 1]) (simp add: monthStart_def DaysInMonth_def)
  next
    assume "31 \<le> w \<and> w < 59 + l"
    then show ?thesis by (intro exI [of _ 2]) (simp add: monthStart_def feb)
  next
    assume "59 + l \<le> w \<and> w < 90 + l"
    then show ?thesis by (intro exI [of _ 3]) (simp add: monthStart_def DaysInMonth_def)
  next
    assume "90 + l \<le> w \<and> w < 120 + l"
    then show ?thesis by (intro exI [of _ 4]) (simp add: monthStart_def DaysInMonth_def)
  next
    assume "120 + l \<le> w \<and> w < 151 + l"
    then show ?thesis by (intro exI [of _ 5]) (simp add: monthStart_def DaysInMonth_def)
  next
    assume "151 + l \<le> w \<and> w < 181 + l"
    then show ?thesis by (intro exI [of _ 6]) (simp add: monthStart_def DaysInMonth_def)
  next
    assume "181 + l \<le> w \<and> w < 212 + l"
    then show ?thesis by (intro exI [of _ 7]) (simp add: monthStart_def DaysInMonth_def)
  next
    assume "212 + l \<le> w \<and> w < 243 + l"
    then show ?thesis by (intro exI [of _ 8]) (simp add: monthStart_def DaysInMonth_def)
  next
    assume "243 + l \<le> w \<and> w < 273 + l"
    then show ?thesis by (intro exI [of _ 9]) (simp add: monthStart_def DaysInMonth_def)
  next
    assume "273 + l \<le> w \<and> w < 304 + l"
    then show ?thesis by (intro exI [of _ 10]) (simp add: monthStart_def DaysInMonth_def)
  next
    assume "304 + l \<le> w \<and> w < 334 + l"
    then show ?thesis by (intro exI [of _ 11]) (simp add: monthStart_def DaysInMonth_def)
  next
    assume "334 + l \<le> w \<and> w < 365 + l"
    then show ?thesis by (intro exI [of _ 12]) (simp add: monthStart_def DaysInMonth_def)
  qed
  then obtain m where "1 \<le> m" "m \<le> 12" "monthStart l (m - 1) \<le> w" "w < monthStart l (m - 1) + DaysInMonth y m"
    by blast
  from g [OF this] show ?thesis
    unfolding l_def by blast
qed


section \<open>Date strings\<close>

lemma isDigit_of_char: "isDigit c \<longleftrightarrow> 48 \<le> (of_char c :: nat) \<and> (of_char c :: nat) \<le> 57"
  by (simp add: isDigit_def less_eq_char_def)

lemma digitVal_range: "isDigit c \<Longrightarrow> 0 \<le> digitVal c \<and> digitVal c \<le> 9"
  by (simp add: isDigit_of_char digitVal_def)

lemma digit_less_iff: "(a < b) = (digitVal a < digitVal b)"
  by (simp add: less_char_def digitVal_def)

lemma digit_eq_iff: "(a = b) = (digitVal a = digitVal b)"
proof
  assume "digitVal a = digitVal b"
  then have "(of_char a :: nat) = of_char b"
    by (simp add: digitVal_def)
  then show "a = b"
    by simp
qed simp

lemma foldl_digits:
  "foldl (\<lambda>n c. 10 * n + digitVal c) n xs = n * 10 ^ length xs + digits xs"
proof (induction xs arbitrary: n)
  case Nil
  then show ?case by (simp add: digits_def)
next
  case (Cons x xs)
  have "foldl (\<lambda>n c. 10 * n + digitVal c) n (x # xs)
        = (10 * n + digitVal x) * 10 ^ length xs + digits xs"
    by (simp add: Cons.IH)
  moreover have "digits (x # xs) = digitVal x * 10 ^ length xs + digits xs"
    using Cons.IH [of "digitVal x"] by (simp add: digits_def)
  ultimately show ?case
    by (simp add: algebra_simps)
qed

lemma digits_Nil: "digits [] = 0"
  by (simp add: digits_def)

lemma digits_Cons: "digits (x # xs) = digitVal x * 10 ^ length xs + digits xs"
  using foldl_digits [of "digitVal x" xs] by (simp add: digits_def)

lemma digits_bounds:
  "list_all isDigit xs \<Longrightarrow> 0 \<le> digits xs \<and> digits xs < 10 ^ length xs"
proof (induction xs)
  case Nil
  then show ?case by (simp add: digits_Nil)
next
  case (Cons x xs)
  then have v: "0 \<le> digitVal x" "digitVal x \<le> 9" and d: "0 \<le> digits xs" "digits xs < 10 ^ length xs"
    using digitVal_range [of x] by simp_all
  have a: "digitVal x * 10 ^ length xs \<le> 9 * 10 ^ length xs"
    using v by (intro mult_right_mono) simp_all
  have b: "0 \<le> digitVal x * 10 ^ length xs"
    using v by simp
  have "0 \<le> digits (x # xs)"
    unfolding digits_Cons using b d by linarith
  moreover have "digits (x # xs) < 10 * 10 ^ length xs"
    unfolding digits_Cons using a d by linarith
  ultimately show ?case
    by simp
qed

lemma lex_arith_less:
  fixes a b p q N :: int
  assumes "0 \<le> p" "p < N" "0 \<le> q" "q < N"
  shows "(a * N + p < b * N + q) = (a < b \<or> a = b \<and> p < q)"
proof -
  have up: "a' * N + p' < b' * N + q'" if "a' < b'" "p' < N" "0 \<le> q'" for a' b' p' q' :: int
  proof -
    have "(a' + 1) * N \<le> b' * N"
      using that assms by (intro mult_right_mono) simp_all
    then show ?thesis
      using that by (simp add: algebra_simps)
  qed
  consider "a < b" | "a = b" | "b < a"
    by linarith
  then show ?thesis
  proof cases
    case 1
    then show ?thesis using up [of a b p q] assms by simp
  next
    case 2
    then show ?thesis by simp
  next
    case 3
    then have "b * N + q < a * N + p"
      using up [of b a q p] assms by simp
    with 3 show ?thesis by simp
  qed
qed

lemma lex_arith_eq:
  fixes a b p q N :: int
  assumes "0 \<le> p" "p < N" "0 \<le> q" "q < N"
  shows "(a * N + p = b * N + q) = (a = b \<and> p = q)"
  using lex_arith_less [OF assms, of a b] lex_arith_less [OF assms(3,4,1,2), of b a]
  by (cases "a * N + p" "b * N + q" rule: linorder_cases) auto

lemma digits_order:
  assumes "length xs = length ys" "list_all isDigit xs" "list_all isDigit ys"
  shows "(xs < ys) = (digits xs < digits ys) \<and> (xs = ys) = (digits xs = digits ys)"
  using assms
proof (induction xs ys rule: list_induct2)
  case Nil
  then show ?case by simp
next
  case (Cons x xs y ys)
  then have ih: "(xs < ys) = (digits xs < digits ys)" "(xs = ys) = (digits xs = digits ys)"
    by simp_all
  have bx: "0 \<le> digits xs" "digits xs < 10 ^ length ys"
    using Cons.prems(1) Cons.hyps digits_bounds [of xs] by simp_all
  have by': "0 \<le> digits ys" "digits ys < 10 ^ length ys"
    using Cons.prems(2) digits_bounds [of ys] by simp_all
  have l: "(digits (x # xs) < digits (y # ys))
           = (digitVal x < digitVal y \<or> digitVal x = digitVal y \<and> digits xs < digits ys)"
    unfolding digits_Cons Cons.hyps by (rule lex_arith_less [OF bx by'])
  have e: "(digits (x # xs) = digits (y # ys))
           = (digitVal x = digitVal y \<and> digits xs = digits ys)"
    unfolding digits_Cons Cons.hyps by (rule lex_arith_eq [OF bx by'])
  show ?case
    unfolding l e by (simp add: ih digit_less_iff [of x y] digit_eq_iff [of x y])
qed

lemma append_less_iff:
  "length xs = length ys \<Longrightarrow> (xs @ us < ys @ vs) = (xs < ys \<or> xs = ys \<and> us < (vs :: 'a :: linorder list))"
  by (induction xs ys rule: list_induct2) auto

lemma wf_dateD:
  assumes "wf_date s"
  shows "length s = 10" "list_all isDigit (take 4 s)" "s ! 4 = CHR ''-''"
    "list_all isDigit (take 2 (drop 5 s))" "s ! 7 = CHR ''-''" "list_all isDigit (drop 8 s)"
    "validDate (yearOf s, monthOf s, dayOf s)"
    "parseDate s = Some (yearOf s, monthOf s, dayOf s)"
  using assms
  by (simp_all add: wf_date_def parseDate_def Let_def validDate_def yearOf_def monthOf_def dayOf_def
      split: if_splits)

lemma wf_date_split:
  assumes "wf_date s"
  shows "s = take 4 s @ CHR ''-'' # take 2 (drop 5 s) @ CHR ''-'' # drop 8 s"
proof -
  have len: "length s = 10"
    using assms by (rule wf_dateD)
  have "s = take 4 s @ drop 4 s"
    by simp
  also have "drop 4 s = s ! 4 # drop 5 s"
    using len Cons_nth_drop_Suc [of 4 s] by simp
  also have "drop 5 s = take 2 (drop 5 s) @ drop 7 s"
    using append_take_drop_id [of 2 "drop 5 s"] by simp
  also have "drop 7 s = s ! 7 # drop 8 s"
    using len Cons_nth_drop_Suc [of 7 s] by simp
  finally show ?thesis
    using wf_dateD(3,5) [OF assms] by simp
qed

lemma wf_date_less_iff:
  assumes s: "wf_date s" and t: "wf_date t"
  shows "(s < t) = (yearOf s < yearOf t \<or> yearOf s = yearOf t \<and>
            (monthOf s < monthOf t \<or> monthOf s = monthOf t \<and> dayOf s < dayOf t))"
proof -
  let ?Y = "take 4 s" and ?M = "take 2 (drop 5 s)" and ?D = "drop 8 s"
  let ?Y' = "take 4 t" and ?M' = "take 2 (drop 5 t)" and ?D' = "drop 8 t"
  have ls: "length s = 10" and lt: "length t = 10"
    using s t by (simp_all add: wf_dateD)
  have ly: "length ?Y = length ?Y'" and lm: "length ?M = length ?M'" and ld: "length ?D = length ?D'"
    using ls lt by simp_all
  have oy: "(?Y < ?Y') = (yearOf s < yearOf t)" "(?Y = ?Y') = (yearOf s = yearOf t)"
    using digits_order [OF ly wf_dateD(2) [OF s] wf_dateD(2) [OF t]] by (simp_all add: yearOf_def)
  have om: "(?M < ?M') = (monthOf s < monthOf t)" "(?M = ?M') = (monthOf s = monthOf t)"
    using digits_order [OF lm wf_dateD(4) [OF s] wf_dateD(4) [OF t]] by (simp_all add: monthOf_def)
  have od: "(?D < ?D') = (dayOf s < dayOf t)"
    using digits_order [OF ld wf_dateD(6) [OF s] wf_dateD(6) [OF t]] by (simp_all add: dayOf_def)
  have "(s < t) = (?Y @ CHR ''-'' # ?M @ CHR ''-'' # ?D < ?Y' @ CHR ''-'' # ?M' @ CHR ''-'' # ?D')"
    using wf_date_split [OF s] wf_date_split [OF t] by simp
  also have "\<dots> = (?Y < ?Y' \<or> ?Y = ?Y' \<and> (?M @ CHR ''-'' # ?D < ?M' @ CHR ''-'' # ?D'))"
    by (simp add: append_less_iff [OF ly])
  also have "(?M @ CHR ''-'' # ?D < ?M' @ CHR ''-'' # ?D') = (?M < ?M' \<or> ?M = ?M' \<and> ?D < ?D')"
    by (simp add: append_less_iff [OF lm])
  finally show ?thesis
    unfolding oy om od .
qed

lemma yearOf_range:
  assumes "wf_date s"
  shows "0 \<le> yearOf s" "yearOf s \<le> 9999"
proof -
  have "length (take 4 s) = 4"
    using wf_dateD(1) [OF assms] by simp
  with digits_bounds [OF wf_dateD(2) [OF assms]] show "0 \<le> yearOf s" "yearOf s \<le> 9999"
    by (simp_all add: yearOf_def)
qed

lemma getTime_wf:
  assumes "wf_date s"
  shows "getTime s = Some (dayNumber s * msPerDay)"
proof -
  have "- 719528 \<le> dayNumber s" "dayNumber s < 2932897"
    unfolding dayNumber_def
    using MakeDay_range [OF wf_dateD(7) [OF assms] yearOf_range [OF assms]] by simp_all
  then have "\<bar>dayNumber s * msPerDay\<bar> \<le> 8640000000000000"
    by (simp add: msPerDay_def abs_le_iff)
  then show ?thesis
    by (simp add: getTime_def wf_dateD(8) [OF assms] TimeClip_def MakeDate_def dayNumber_def)
qed

lemma getTime_None: "\<not> wf_date s \<Longrightarrow> getTime s = None"
  by (cases "parseDate s") (simp_all add: getTime_def wf_date_def)

lemma getTime_Some_wf: "getTime s = Some a \<Longrightarrow> wf_date s"
  using getTime_None [of s] by auto

lemma dayNumber_strict_mono:
  assumes s: "wf_date s" and t: "wf_date t" and lt: "s < t"
  shows "dayNumber s < dayNumber t"
  unfolding dayNumber_def
  using lt wf_dateD(7) [OF s] wf_dateD(7) [OF t]
  by (intro MakeDay_strict_mono) (simp_all add: wf_date_less_iff [OF s t])

lemma dayNumber_less_iff:
  assumes s: "wf_date s" and t: "wf_date t"
  shows "(dayNumber s < dayNumber t) = (s < t)"
  using dayNumber_strict_mono [OF s t] dayNumber_strict_mono [OF t s]
  by (cases s t rule: linorder_cases) auto

lemma dayNumber_le_iff:
  assumes s: "wf_date s" and t: "wf_date t"
  shows "(dayNumber s \<le> dayNumber t) = (s \<le> t)"
  using dayNumber_less_iff [OF t s] by (simp add: not_less [symmetric])

lemma getTime_le_iff:
  assumes s: "wf_date s" and t: "wf_date t"
  shows "le_num (getTime s) (getTime t) = (s \<le> t)"
  by (simp add: getTime_wf [OF s] getTime_wf [OF t] le_num_def msPerDay_def dayNumber_le_iff [OF s t])

lemma getTime_inj:
  assumes "getTime s = Some a" "getTime t = Some a"
  shows "s = t"
proof -
  have s: "wf_date s" and t: "wf_date t"
    using assms by (auto intro: getTime_Some_wf)
  have "dayNumber s = dayNumber t"
    using assms by (simp add: getTime_wf [OF s] getTime_wf [OF t] msPerDay_def)
  then have "s \<le> t" "t \<le> s"
    using dayNumber_le_iff [OF s t] dayNumber_le_iff [OF t s] by simp_all
  then show ?thesis
    by simp
qed

lemma getTime_eq_iff:
  assumes "wf_date s" "wf_date t"
  shows "(getTime s = getTime t) = (s = t)"
  using getTime_inj [of s _ t] getTime_wf [OF assms(1)] getTime_wf [OF assms(2)] by auto

lemma startsWith_year:
  assumes s: "wf_date s" and y: "wf_year yr"
  shows "startsWith s yr = (yearOf s = digits yr)"
proof -
  have "length (take 4 s) = length yr"
    using wf_dateD(1) [OF s] y by (simp add: wf_year_def)
  from digits_order [OF this wf_dateD(2) [OF s]] y
  show ?thesis
    by (simp add: startsWith_def wf_year_def yearOf_def)
qed

lemma before_year:
  assumes s: "wf_date s" and y: "wf_year yr"
  shows "(s < yr @ ''-01-01'') = (yearOf s < digits yr)"
proof -
  let ?Y = "take 4 s" and ?M = "take 2 (drop 5 s)" and ?D = "drop 8 s"
  have ls: "length s = 10"
    using s by (rule wf_dateD)
  have ly: "length ?Y = length yr"
    using ls y by (simp add: wf_year_def)
  have oy: "(?Y < yr) = (yearOf s < digits yr)"
    using digits_order [OF ly wf_dateD(2) [OF s]] y by (simp add: wf_year_def yearOf_def)
  have v: "1 \<le> monthOf s" "1 \<le> dayOf s"
    using wf_dateD(7) [OF s] by (simp_all add: validDate_def)
  have lm: "length ?M = length ''01''" and ld: "length ?D = length ''01''"
    using ls by simp_all
  have d01: "digits ''01'' = 1"
    by (simp add: digits_def digitVal_def)
  have i01: "list_all isDigit ''01''"
    by (simp add: isDigit_def)
  have om: "\<not> ?M < ''01''"
    using digits_order [OF lm wf_dateD(4) [OF s] i01] v(1) by (simp add: d01 monthOf_def)
  have od: "\<not> ?D < ''01''"
    using digits_order [OF ld wf_dateD(6) [OF s] i01] v(2) by (simp add: d01 dayOf_def)
  have "\<not> (?M @ CHR ''-'' # ?D < ''01'' @ CHR ''-'' # ''01'')"
    unfolding append_less_iff [OF lm] using om od by simp
  then have rest: "\<not> (CHR ''-'' # ?M @ CHR ''-'' # ?D < ''-01-01'')"
    by simp
  have "(s < yr @ ''-01-01'') = (?Y @ CHR ''-'' # ?M @ CHR ''-'' # ?D < yr @ ''-01-01'')"
    using wf_date_split [OF s] by simp
  also have "\<dots> = (?Y < yr \<or> ?Y = yr \<and> CHR ''-'' # ?M @ CHR ''-'' # ?D < ''-01-01'')"
    by (rule append_less_iff [OF ly])
  finally show ?thesis
    using rest oy by simp
qed

section \<open>The latest record of a category\<close>

lemma le_num_Some: "le_num a b \<Longrightarrow> \<exists>x y. a = Some x \<and> b = Some y \<and> x \<le> y"
  by (auto simp: le_num_def split: option.splits)

lemma le_num_simp [simp]: "le_num (Some x) (Some y) = (x \<le> y)" "le_num None b = False" "le_num a None = False"
  by (auto simp: le_num_def split: option.splits)

lemma byDateDesc_timeOf:
  "getTime (date a) \<noteq> None \<Longrightarrow> getTime (date b) \<noteq> None \<Longrightarrow> byDateDesc a b = timeOf b - timeOf a"
  by (auto simp: byDateDesc_def timeOf_def split: option.splits)

lemma hd_sortBy_byDateDesc:
  assumes ne: "rs \<noteq> []" and valid: "\<forall>a\<in>set rs. getTime (date a) \<noteq> None"
  shows "firstMax timeOf rs (hd (sortBy byDateDesc rs))"
proof -
  have "\<forall>a\<in>set rs. \<forall>b\<in>set rs. byDateDesc a b = timeOf b - timeOf a"
    using valid byDateDesc_timeOf by blast
  then show ?thesis
    by (rule hd_sortBy_firstMax [OF ne])
qed

lemma latestValue_Nil: "latestValue [] = 0"
  by (simp add: latestValue_def)

lemma latestValue_hd: "rs \<noteq> [] \<Longrightarrow> latestValue rs = dmul (amount (hd (sortBy byDateDesc rs))) (exchangeRate (hd (sortBy byDateDesc rs)))"
  by (cases "sortBy byDateDesc rs") (simp_all add: latestValue_def sortBy_Nil_iff)

lemma rnd_latestValue: "rnd (latestValue rs) = latestValue rs"
  by (cases "sortBy byDateDesc rs") (simp_all add: latestValue_def rnd_0 dmul_def rnd_idem)

lemma categoryValues_eq:
  "categoryValues assets cm c =
     latestValue (filter (\<lambda>a. type a = c \<and> le_num (getTime (date a)) cm) assets)"
  by (cases c) (simp_all add: categoryValues_def assetTypes_def Let_def latestValue_def sortBy_Nil_iff split: list.splits)

lemma currentStatus_eq:
  "currentStatus assets c = latestValue (filter (\<lambda>a. type a = c) assets)"
  by (cases c) (simp_all add: currentStatus_def assetTypes_def Let_def latestValue_def sortBy_Nil_iff split: list.splits)

lemma dadd_0_currentStatus: "dadd 0 (currentStatus assets c) = currentStatus assets c"
  by (simp add: dadd_def currentStatus_eq rnd_latestValue)

lemma relevant_latestAt:
  assumes ne: "filter (\<lambda>a. type a = c \<and> le_num (getTime (date a)) cm) assets \<noteq> []"
  shows "latestAt assets c cm (hd (sortBy byDateDesc (filter (\<lambda>a. type a = c \<and> le_num (getTime (date a)) cm) assets)))"
proof -
  let ?P = "\<lambda>a. type a = c \<and> le_num (getTime (date a)) cm"
  let ?rel = "filter ?P assets"
  let ?r = "hd (sortBy byDateDesc ?rel)"
  have valid: "\<forall>a\<in>set ?rel. getTime (date a) \<noteq> None"
    by (auto dest: le_num_Some)
  then have "\<forall>a\<in>set ?rel. \<forall>b\<in>set ?rel. byDateDesc a b = timeOf b - timeOf a"
    using byDateDesc_timeOf by blast
  from hd_sortBy_firstMax [OF ne this]
  have rin: "?r \<in> set ?rel" and mx: "\<forall>a\<in>set ?rel. timeOf a \<le> timeOf ?r"
    and fnd: "find (\<lambda>a. timeOf a = timeOf ?r) ?rel = Some ?r"
    unfolding firstMax_def by simp_all
  from rin have r1: "?r \<in> set assets" and r2: "type ?r = c" and r3: "le_num (getTime (date ?r)) cm"
    by simp_all
  from r3 obtain tr tc where tr: "getTime (date ?r) = Some tr" and tc: "cm = Some tc" and trc: "tr \<le> tc"
    by (auto dest: le_num_Some)
  have r4: "\<forall>a\<in>set assets. type a = c \<and> le_num (getTime (date a)) cm
            \<longrightarrow> le_num (getTime (date a)) (getTime (date ?r))"
  proof (intro ballI impI)
    fix a assume a: "a \<in> set assets" and pa: "type a = c \<and> le_num (getTime (date a)) cm"
    then have "a \<in> set ?rel" by simp
    with mx have "timeOf a \<le> timeOf ?r" by blast
    moreover obtain ta where "getTime (date a) = Some ta"
      using pa by (auto dest: le_num_Some)
    ultimately show "le_num (getTime (date a)) (getTime (date ?r))"
      using tr by (simp add: timeOf_def)
  qed
  have "find (\<lambda>a. type a = c \<and> getTime (date a) = getTime (date ?r)) assets
        = find (\<lambda>a. ?P a \<and> timeOf a = timeOf ?r) assets"
  proof (rule find_cong_set)
    fix a assume "a \<in> set assets"
    show "(type a = c \<and> getTime (date a) = getTime (date ?r)) = (?P a \<and> timeOf a = timeOf ?r)"
      using tr tc trc by (cases "getTime (date a)") (auto simp: timeOf_def)
  qed
  with fnd have r5: "find (\<lambda>a. type a = c \<and> getTime (date a) = getTime (date ?r)) assets = Some ?r"
    by (simp add: find_filter)
  show ?thesis
    unfolding latestAt_def using r1 r2 r3 r4 r5 by blast
qed

lemma categoryValues_none:
  assumes "\<forall>a\<in>set assets. type a = c \<longrightarrow> \<not> le_num (getTime (date a)) cm"
  shows "categoryValues assets cm c = 0"
proof -
  have "filter (\<lambda>a. type a = c \<and> le_num (getTime (date a)) cm) assets = []"
    using assms by (auto simp: filter_empty_conv)
  then show ?thesis
    by (simp add: categoryValues_eq latestValue_Nil)
qed

lemma categoryValues_some:
  assumes "\<exists>a\<in>set assets. type a = c \<and> le_num (getTime (date a)) cm"
  shows "\<exists>r. latestAt assets c cm r \<and> categoryValues assets cm c = dmul (amount r) (exchangeRate r)"
proof -
  let ?rel = "filter (\<lambda>a. type a = c \<and> le_num (getTime (date a)) cm) assets"
  have ne: "?rel \<noteq> []"
    using assms by (auto simp: filter_empty_conv)
  have "categoryValues assets cm c = dmul (amount (hd (sortBy byDateDesc ?rel))) (exchangeRate (hd (sortBy byDateDesc ?rel)))"
    by (simp add: categoryValues_eq latestValue_hd [OF ne])
  with relevant_latestAt [OF ne] show ?thesis
    by blast
qed

lemma categoryValues_carried:
  assumes d1: "getTime d1 = Some t1" and d2: "getTime d2 = Some t2" and lt: "t1 < t2"
    and none: "\<forall>a\<in>set assets. type a = c \<longrightarrow> \<not> (\<exists>t. getTime (date a) = Some t \<and> t1 < t \<and> t \<le> t2)"
  shows "categoryValues assets (getTime d2) c = categoryValues assets (getTime d1) c"
proof -
  have "filter (\<lambda>a. type a = c \<and> le_num (getTime (date a)) (getTime d2)) assets
      = filter (\<lambda>a. type a = c \<and> le_num (getTime (date a)) (getTime d1)) assets"
  proof (rule filter_cong [OF refl])
    fix a assume ain: "a \<in> set assets"
    show "(type a = c \<and> le_num (getTime (date a)) (getTime d2))
        = (type a = c \<and> le_num (getTime (date a)) (getTime d1))"
    proof (cases "getTime (date a)")
      case None
      then show ?thesis by simp
    next
      case (Some t)
      show ?thesis
      proof (cases "type a = c")
        case True
        with none ain Some have "\<not> (t1 < t \<and> t \<le> t2)"
          by blast
        with lt have "(t \<le> t2) = (t \<le> t1)"
          by linarith
        then show ?thesis
          by (simp add: Some d1 d2)
      next
        case False
        then show ?thesis by simp
      qed
    qed
  qed
  then show ?thesis
    by (simp add: categoryValues_eq)
qed

lemma mostRecent_of_instants:
  assumes wf: "\<forall>a\<in>set assets. wf_date (date a)" and d: "wf_date d"
    and r: "latestAt assets c (getTime d) r"
  shows "mostRecent assets c d r"
proof -
  have rin: "r \<in> set assets" and ty: "type r = c" and le: "le_num (getTime (date r)) (getTime d)"
    and mx: "\<forall>a\<in>set assets. type a = c \<and> le_num (getTime (date a)) (getTime d)
            \<longrightarrow> le_num (getTime (date a)) (getTime (date r))"
    and fnd: "find (\<lambda>a. type a = c \<and> getTime (date a) = getTime (date r)) assets = Some r"
    using r by (simp_all add: latestAt_def)
  have wr: "wf_date (date r)"
    using wf rin by blast
  have le': "date r \<le> d"
    using le getTime_le_iff [OF wr d] by simp
  have mx': "\<forall>a\<in>set assets. type a = c \<and> date a \<le> d \<longrightarrow> date a \<le> date r"
  proof (intro ballI impI)
    fix a assume a: "a \<in> set assets" and h: "type a = c \<and> date a \<le> d"
    have wa: "wf_date (date a)"
      using wf a by blast
    have "le_num (getTime (date a)) (getTime (date r))"
      using mx a h getTime_le_iff [OF wa d] by blast
    then show "date a \<le> date r"
      using getTime_le_iff [OF wa wr] by simp
  qed
  have "find (\<lambda>a. type a = c \<and> date a = date r) assets
        = find (\<lambda>a. type a = c \<and> getTime (date a) = getTime (date r)) assets"
  proof (rule find_cong_set)
    fix a assume "a \<in> set assets"
    then have "wf_date (date a)"
      using wf by blast
    then show "(type a = c \<and> date a = date r) = (type a = c \<and> getTime (date a) = getTime (date r))"
      using getTime_eq_iff [OF _ wr] by simp
  qed
  with fnd have fnd': "find (\<lambda>a. type a = c \<and> date a = date r) assets = Some r"
    by simp
  show ?thesis
    unfolding mostRecent_def using rin ty le' mx' fnd' by blast
qed

lemma categoryValues_mostRecent:
  assumes wf: "\<forall>a\<in>set assets. wf_date (date a)" and wd: "wf_date d"
    and ex: "\<exists>a\<in>set assets. type a = c \<and> date a \<le> d"
  shows "\<exists>r. mostRecent assets c d r \<and> categoryValues assets (getTime d) c = dmul (amount r) (exchangeRate r)"
proof -
  have "\<exists>a\<in>set assets. type a = c \<and> le_num (getTime (date a)) (getTime d)"
    using ex wf getTime_le_iff [OF _ wd] by blast
  from categoryValues_some [OF this]
  obtain r where "latestAt assets c (getTime d) r"
    and v: "categoryValues assets (getTime d) c = dmul (amount r) (exchangeRate r)"
    by blast
  then have "mostRecent assets c d r"
    using mostRecent_of_instants [OF wf wd] by blast
  with v show ?thesis
    by blast
qed

lemma latestValue_perm:
  assumes perm: "mset rs = mset rs'"
    and valid: "\<forall>a\<in>set rs. getTime (date a) \<noteq> None"
    and same: "\<forall>a\<in>set rs. \<forall>b\<in>set rs. date a = date b \<longrightarrow> dmul (amount a) (exchangeRate a) = dmul (amount b) (exchangeRate b)"
  shows "latestValue rs = latestValue rs'"
proof (cases "rs = []")
  case True
  then have "rs' = []"
    using perm by simp
  with True show ?thesis by simp
next
  case False
  then have ne': "rs' \<noteq> []"
    using perm by auto
  have sets: "set rs = set rs'"
    using perm by (rule mset_eq_setD)
  let ?r = "hd (sortBy byDateDesc rs)" and ?r' = "hd (sortBy byDateDesc rs')"
  have f: "firstMax timeOf rs ?r"
    by (rule hd_sortBy_byDateDesc [OF False valid])
  have f': "firstMax timeOf rs' ?r'"
    using valid sets by (intro hd_sortBy_byDateDesc [OF ne']) simp
  have rin: "?r \<in> set rs" and rin': "?r' \<in> set rs"
    using f f' sets by (simp_all add: firstMax_def)
  have "timeOf ?r' \<le> timeOf ?r" "timeOf ?r \<le> timeOf ?r'"
    using f f' rin rin' sets by (simp_all add: firstMax_def)
  then have "timeOf ?r = timeOf ?r'"
    by simp
  moreover obtain t t' where "getTime (date ?r) = Some t" "getTime (date ?r') = Some t'"
    using valid rin rin' by blast
  ultimately have "date ?r = date ?r'"
    by (auto simp: timeOf_def intro: getTime_inj)
  then have "dmul (amount ?r) (exchangeRate ?r) = dmul (amount ?r') (exchangeRate ?r')"
    using same rin rin' by blast
  then show ?thesis
    by (simp add: latestValue_hd [OF False] latestValue_hd [OF ne'])
qed

lemma categoryValues_perm:
  assumes perm: "mset xs = mset ys"
    and same: "\<forall>a\<in>set xs. \<forall>b\<in>set xs. type a = type b \<and> date a = date b
                 \<longrightarrow> dmul (amount a) (exchangeRate a) = dmul (amount b) (exchangeRate b)"
  shows "categoryValues xs cm c = categoryValues ys cm c"
proof -
  let ?P = "\<lambda>a. type a = c \<and> le_num (getTime (date a)) cm"
  have "mset (filter ?P xs) = mset (filter ?P ys)"
    using perm by simp
  moreover have "\<forall>a\<in>set (filter ?P xs). getTime (date a) \<noteq> None"
    by (auto dest: le_num_Some)
  moreover have "\<forall>a\<in>set (filter ?P xs). \<forall>b\<in>set (filter ?P xs). date a = date b
      \<longrightarrow> dmul (amount a) (exchangeRate a) = dmul (amount b) (exchangeRate b)"
    using same by simp
  ultimately have "latestValue (filter ?P xs) = latestValue (filter ?P ys)"
    by (rule latestValue_perm)
  then show ?thesis
    by (simp add: categoryValues_eq)
qed

section \<open>The timeline\<close>

lemma uniqueDates_eq: "uniqueDates assets = sorted_list_of_set (date ` set assets)"
proof -
  have "sorted_list_of_set (set (newSet (map date assets))) = sort (remdups (newSet (map date assets)))"
    by (rule sorted_list_of_set_sort_remdups)
  moreover have "remdups (newSet (map date assets)) = newSet (map date assets)"
    by (simp add: distinct_remdups_id distinct_newSet)
  ultimately show ?thesis
    by (simp add: uniqueDates_def set_newSet)
qed

lemma uniqueDates_set: "set (uniqueDates assets) = date ` set assets"
  by (simp add: uniqueDates_eq)

lemma uniqueDates_sorted: "sorted (uniqueDates assets)"
  by (simp add: uniqueDates_eq)

lemma uniqueDates_not_Nil: "assets \<noteq> [] \<Longrightarrow> uniqueDates assets \<noteq> []"
  using uniqueDates_set [of assets] by (cases assets) auto

lemma date_p_dataPoint: "date_p (dataPoint assets d) = d"
  by (simp add: dataPoint_def Let_def)

lemma map_date_p_dataPoint: "map (date_p \<circ> dataPoint assets) ds = ds"
  by (induction ds) (simp_all add: date_p_dataPoint)

lemma dates_timelineData: "map date_p (timelineData assets) = uniqueDates assets"
proof (cases "assets = []")
  case True
  then show ?thesis
    by (simp add: timelineData_def uniqueDates_def newSet_def)
next
  case False
  then show ?thesis
    by (simp add: timelineData_def map_date_p_dataPoint)
qed

lemma timelineData_set: "set (timelineData assets) = dataPoint assets ` date ` set assets"
proof (cases "assets = []")
  case True
  then show ?thesis by (simp add: timelineData_def)
next
  case False
  then show ?thesis
    by (simp add: timelineData_def uniqueDates_eq image_image)
qed

lemma point_in_timelineData: "p \<in> set (timelineData assets) \<Longrightarrow> p = dataPoint assets (date_p p)"
  by (auto simp: timelineData_set date_p_dataPoint)

lemma last_timelineData:
  assumes "assets \<noteq> []"
  shows "last (timelineData assets) = dataPoint assets (last (uniqueDates assets))"
  using assms uniqueDates_not_Nil [OF assms] by (simp add: timelineData_def last_map)

lemma timelineData_calendar_order:
  assumes wf: "\<forall>a\<in>set assets. wf_date (date a)"
  shows "sorted_wrt (\<lambda>p q. dayNumber (date_p p) < dayNumber (date_p q)) (timelineData assets)"
proof -
  have "sorted_wrt (<) (map date_p (timelineData assets))"
    by (simp add: dates_timelineData uniqueDates_eq)
  then have s: "sorted_wrt (\<lambda>p q. date_p p < date_p q) (timelineData assets)"
    by (simp add: sorted_wrt_map)
  have w: "\<forall>p\<in>set (timelineData assets). wf_date (date_p p)"
    using wf by (auto simp: timelineData_set date_p_dataPoint)
  show ?thesis
    by (rule sorted_wrt_mono_rel [OF _ s]) (use w in \<open>simp add: dayNumber_less_iff\<close>)
qed

lemma categoryValues_at_last:
  assumes ne: "assets \<noteq> []" and wf: "\<forall>a\<in>set assets. wf_date (date a)"
  shows "categoryValues assets (getTime (last (uniqueDates assets))) c = currentStatus assets c"
proof -
  let ?d = "last (uniqueDates assets)"
  have "?d \<in> set (uniqueDates assets)"
    using uniqueDates_not_Nil [OF ne] by simp
  then have wd: "wf_date ?d"
    using wf by (auto simp: uniqueDates_set)
  have "filter (\<lambda>a. type a = c \<and> le_num (getTime (date a)) (getTime ?d)) assets
        = filter (\<lambda>a. type a = c) assets"
  proof (rule filter_cong [OF refl])
    fix a assume a: "a \<in> set assets"
    then have "date a \<le> ?d"
      by (intro sorted_le_last uniqueDates_sorted) (simp add: uniqueDates_set)
    moreover have "wf_date (date a)"
      using wf a by blast
    ultimately show "(type a = c \<and> le_num (getTime (date a)) (getTime ?d)) = (type a = c)"
      using getTime_le_iff [OF _ wd] by simp
  qed
  then show ?thesis
    by (simp add: categoryValues_eq currentStatus_eq)
qed

lemma timelineData_cashLedger: "timelineData cashLedger = cashTimeline"
  by code_simp

text \<open>
  Claim C2. The timeline has exactly one point per distinct date of the input, in
  ascending order of the dates: the dates of its points are the sorted list of the set
  of input dates, so its length is the number of distinct dates; on the empty input it
  is empty. The order is the order of the date strings, which \<^verbatim>\<open>sort()\<close> uses; when
  the dates are well formed, the points are also strictly ascending by calendar day.
\<close>

theorem timelineData_one_point_per_date:
  "map date_p (timelineData assets) = sorted_list_of_set (date ` set assets)
   \<and> sorted (map date_p (timelineData assets))
   \<and> distinct (map date_p (timelineData assets))
   \<and> length (timelineData assets) = card (date ` set assets)
   \<and> timelineData [] = []
   \<and> ((\<forall>a\<in>set assets. wf_date (date a)) \<longrightarrow>
         sorted_wrt (\<lambda>p q. dayNumber (date_p p) < dayNumber (date_p q)) (timelineData assets))"
proof -
  have eq: "map date_p (timelineData assets) = sorted_list_of_set (date ` set assets)"
    by (simp add: dates_timelineData uniqueDates_eq)
  have "length (map date_p (timelineData assets)) = card (date ` set assets)"
    unfolding eq by simp
  then have len: "length (timelineData assets) = card (date ` set assets)"
    by simp
  have emp: "timelineData [] = []"
    by (simp add: timelineData_def)
  have so: "sorted (map date_p (timelineData assets))" and di: "distinct (map date_p (timelineData assets))"
    unfolding eq by simp_all
  from eq so di len emp timelineData_calendar_order [of assets] show ?thesis
    by blast
qed

theorem timelineData_one_point_per_date_witness:
  "list_all (\<lambda>a. wf_date (date a)) cashLedger
   \<and> map date_p (timelineData cashLedger) = [''2025-01-05'', ''2025-03-10'', ''2025-06-30'', ''2026-01-05'']
   \<and> sorted_wrt (\<lambda>p q. dayNumber (date_p p) < dayNumber (date_p q)) (timelineData cashLedger)"
proof -
  have w: "list_all (\<lambda>a. wf_date (date a)) cashLedger"
    by code_simp
  then have w': "\<forall>a\<in>set cashLedger. wf_date (date a)"
    unfolding list_all_iff .
  have d: "map date_p (timelineData cashLedger) = [''2025-01-05'', ''2025-03-10'', ''2025-06-30'', ''2026-01-05'']"
    by code_simp
  have s: "sorted_wrt (\<lambda>p q. dayNumber (date_p p) < dayNumber (date_p q)) (timelineData cashLedger)"
    using timelineData_one_point_per_date [of cashLedger] w' by (elim conjE) (rule mp)
  show ?thesis
    by (intro conjI w d s)
qed

text \<open>
  Claim C3 says that the total of a point is its investment value plus the sum of its
  two cash values. The numbers are doubles and the program adds the four values from
  left to right, rounding after each addition; adding the cash values first gives
  another number. In \<open>fractionLedger\<close> (values 107947, 500.25 * 31.8, 50000 and
  250.35 * 31.8) the total is 181816.08000000002, whereas the investment value plus the
  sum of the cash values is 181816.08 when added in doubles, and another number again
  when added without rounding.
\<close>

theorem timelineData_totals_counterexample:
  "map total (timelineData fractionLedger) = [3123576469947679 / 17179869184]
   \<and> map investment (timelineData fractionLedger) = [8511247355163443 / 68719476736]
   \<and> categoryValues fractionLedger (getTime ''2025-01-05'') Tw_cash = 50000
   \<and> categoryValues fractionLedger (getTime ''2025-01-05'') Us_cash = 8753355005236347 / 1099511627776
   \<and> dadd (8511247355163443 / 68719476736) (dadd 50000 (8753355005236347 / 1099511627776))
        = 6247152939895357 / 34359738368
   \<and> (3123576469947679 / 17179869184 :: rat) \<noteq> 6247152939895357 / 34359738368
   \<and> (3123576469947679 / 17179869184 :: rat)
        \<noteq> 8511247355163443 / 68719476736 + (50000 + 8753355005236347 / 1099511627776)"
proof -
  have 1: "map total (timelineData fractionLedger) = [3123576469947679 / 17179869184]"
    by code_simp
  have 2: "map investment (timelineData fractionLedger) = [8511247355163443 / 68719476736]"
    by code_simp
  have 3: "categoryValues fractionLedger (getTime ''2025-01-05'') Tw_cash = 50000"
    by code_simp
  have 4: "categoryValues fractionLedger (getTime ''2025-01-05'') Us_cash = 8753355005236347 / 1099511627776"
    by code_simp
  have 5: "dadd (8511247355163443 / 68719476736) (dadd 50000 (8753355005236347 / 1099511627776))
        = 6247152939895357 / 34359738368"
    by code_simp
  have 6: "(3123576469947679 / 17179869184 :: rat) \<noteq> 6247152939895357 / 34359738368"
    by simp
  have 7: "(3123576469947679 / 17179869184 :: rat)
        \<noteq> 8511247355163443 / 68719476736 + (50000 + 8753355005236347 / 1099511627776)"
    by simp
  show ?thesis
    by (intro conjI 1 2 3 4 5 6 7)
qed

text \<open>
  Claim C3, amended. In every point of the timeline, the two stock values are those the
  loop over the categories computes for the date of the point (\<open>categoryValues\<close>); the
  investment value is their sum, rounded; the total is the sum of the four category
  values taken from left to right (stock of Taiwan, stock of the United States, cash of
  Taiwan, cash of the United States), rounded after each addition, which is the
  investment value plus the first cash value, plus the second. When the three sums are
  doubles themselves (as whole numbers below \<open>2 ^ 53\<close> are, \<open>representable_of_int\<close>),
  nothing is rounded, and the total is the investment value plus the sum of the two cash values.
\<close>

theorem timelineData_totals:
  "\<forall>p\<in>set (timelineData assets).
     (let cv = categoryValues assets (getTime (date_p p)) in
        tw_inv p = cv Tw_stock
      \<and> us_inv p = cv Us_stock
      \<and> investment p = dadd (cv Tw_stock) (cv Us_stock)
      \<and> total p = dadd (dadd (dadd (cv Tw_stock) (cv Us_stock)) (cv Tw_cash)) (cv Us_cash)
      \<and> total p = dadd (dadd (investment p) (cv Tw_cash)) (cv Us_cash)
      \<and> (representable (cv Tw_stock + cv Us_stock)
           \<and> representable (cv Tw_stock + cv Us_stock + cv Tw_cash)
           \<and> representable (cv Tw_stock + cv Us_stock + cv Tw_cash + cv Us_cash) \<longrightarrow>
             investment p = cv Tw_stock + cv Us_stock
           \<and> total p = cv Tw_stock + cv Us_stock + cv Tw_cash + cv Us_cash
           \<and> total p = investment p + (cv Tw_cash + cv Us_cash)))"
proof
  fix p assume "p \<in> set (timelineData assets)"
  then have p: "p = dataPoint assets (date_p p)"
    by (rule point_in_timelineData)
  define cv where "cv = categoryValues assets (getTime (date_p p))"
  have "tw_inv (dataPoint assets (date_p p)) = cv Tw_stock"
    "us_inv (dataPoint assets (date_p p)) = cv Us_stock"
    "investment (dataPoint assets (date_p p)) = dadd (cv Tw_stock) (cv Us_stock)"
    "total (dataPoint assets (date_p p)) = dadd (dadd (dadd (cv Tw_stock) (cv Us_stock)) (cv Tw_cash)) (cv Us_cash)"
    by (simp_all add: dataPoint_def Let_def cv_def)
  then have f: "tw_inv p = cv Tw_stock" "us_inv p = cv Us_stock"
    "investment p = dadd (cv Tw_stock) (cv Us_stock)"
    "total p = dadd (dadd (dadd (cv Tw_stock) (cv Us_stock)) (cv Tw_cash)) (cv Us_cash)"
    using p by simp_all
  have g: "total p = dadd (dadd (investment p) (cv Tw_cash)) (cv Us_cash)"
    by (simp only: f)
  have h: "investment p = cv Tw_stock + cv Us_stock
           \<and> total p = cv Tw_stock + cv Us_stock + cv Tw_cash + cv Us_cash
           \<and> total p = investment p + (cv Tw_cash + cv Us_cash)"
    if r: "representable (cv Tw_stock + cv Us_stock)
           \<and> representable (cv Tw_stock + cv Us_stock + cv Tw_cash)
           \<and> representable (cv Tw_stock + cv Us_stock + cv Tw_cash + cv Us_cash)"
  proof -
    have i: "investment p = cv Tw_stock + cv Us_stock"
      using r by (simp add: f dadd_def representable_def)
    have t: "total p = cv Tw_stock + cv Us_stock + cv Tw_cash + cv Us_cash"
      using r by (simp add: f dadd_def representable_def)
    show ?thesis
      by (simp add: i t)
  qed
  show "let cv = categoryValues assets (getTime (date_p p)) in
        tw_inv p = cv Tw_stock
      \<and> us_inv p = cv Us_stock
      \<and> investment p = dadd (cv Tw_stock) (cv Us_stock)
      \<and> total p = dadd (dadd (dadd (cv Tw_stock) (cv Us_stock)) (cv Tw_cash)) (cv Us_cash)
      \<and> total p = dadd (dadd (investment p) (cv Tw_cash)) (cv Us_cash)
      \<and> (representable (cv Tw_stock + cv Us_stock)
           \<and> representable (cv Tw_stock + cv Us_stock + cv Tw_cash)
           \<and> representable (cv Tw_stock + cv Us_stock + cv Tw_cash + cv Us_cash) \<longrightarrow>
             investment p = cv Tw_stock + cv Us_stock
           \<and> total p = cv Tw_stock + cv Us_stock + cv Tw_cash + cv Us_cash
           \<and> total p = investment p + (cv Tw_cash + cv Us_cash))"
    unfolding Let_def cv_def [symmetric] using f g h by blast
qed

theorem timelineData_totals_witness:
  "\<lparr> date_p = ''2025-06-30'', total = 2729172, investment = 2647172, us_inv = 2539225, tw_inv = 107947 \<rparr>
      \<in> set (timelineData cashLedger)
   \<and> map (categoryValues cashLedger (getTime ''2025-06-30'')) assetTypes = [107947, 2539225, 50000, 32000]
   \<and> representable (107947 + 2539225)
   \<and> representable (107947 + 2539225 + 50000)
   \<and> representable (107947 + 2539225 + 50000 + 32000)
   \<and> (2729172 :: rat) = 2647172 + (50000 + 32000)"
proof -
  let ?p = "\<lparr> date_p = ''2025-06-30'', total = 2729172, investment = 2647172, us_inv = 2539225, tw_inv = 107947 \<rparr>"
  let ?cv = "categoryValues cashLedger (getTime ''2025-06-30'')"
  have m: "?p \<in> set (timelineData cashLedger)"
    unfolding timelineData_cashLedger by code_simp
  have c: "map ?cv assetTypes = [107947, 2539225, 50000, 32000]"
    by code_simp
  then have c4: "?cv Tw_stock = 107947" "?cv Us_stock = 2539225" "?cv Tw_cash = 50000" "?cv Us_cash = 32000"
    by (simp_all add: assetTypes_def)
  have r1: "representable (107947 + 2539225)"
    by code_simp
  have r2: "representable (107947 + 2539225 + 50000)"
    by code_simp
  have r3: "representable (107947 + 2539225 + 50000 + 32000)"
    by code_simp
  have "let cv = categoryValues cashLedger (getTime (date_p ?p)) in
        tw_inv ?p = cv Tw_stock
      \<and> us_inv ?p = cv Us_stock
      \<and> investment ?p = dadd (cv Tw_stock) (cv Us_stock)
      \<and> total ?p = dadd (dadd (dadd (cv Tw_stock) (cv Us_stock)) (cv Tw_cash)) (cv Us_cash)
      \<and> total ?p = dadd (dadd (investment ?p) (cv Tw_cash)) (cv Us_cash)
      \<and> (representable (cv Tw_stock + cv Us_stock)
           \<and> representable (cv Tw_stock + cv Us_stock + cv Tw_cash)
           \<and> representable (cv Tw_stock + cv Us_stock + cv Tw_cash + cv Us_cash) \<longrightarrow>
             investment ?p = cv Tw_stock + cv Us_stock
           \<and> total ?p = cv Tw_stock + cv Us_stock + cv Tw_cash + cv Us_cash
           \<and> total ?p = investment ?p + (cv Tw_cash + cv Us_cash))"
    using timelineData_totals [of cashLedger] m by (rule bspec)
  then have "representable (107947 + 2539225)
           \<and> representable (107947 + 2539225 + 50000)
           \<and> representable (107947 + 2539225 + 50000 + 32000) \<longrightarrow>
             (2647172 :: rat) = 107947 + 2539225
           \<and> (2729172 :: rat) = 107947 + 2539225 + 50000 + 32000
           \<and> (2729172 :: rat) = 2647172 + (50000 + 32000)"
    unfolding Let_def point.simps c4 by (elim conjE)
  from mp [OF this conjI [OF r1 conjI [OF r2 r3]]]
  have e: "(2729172 :: rat) = 2647172 + (50000 + 32000)"
    by (elim conjE)
  show ?thesis
    by (intro conjI m c r1 r2 r3 e)
qed

text \<open>
  Claim C1. Let all dates of the ledger be well formed and let \<open>d\<close> be a date of the
  ledger. The timeline has a point for \<open>d\<close>, built from the four category values at \<open>d\<close>.
  The value of category \<open>c\<close> at \<open>d\<close> is amount times rate (\<open>dmul\<close>) of the most recent record of
  \<open>c\<close> dated on or before \<open>d\<close> (the first in the ledger among records of that same date),
  and \<open>0\<close> when \<open>c\<close> has no record dated on or before \<open>d\<close>. Hence, for dates
  \<open>d1 < d2\<close> of the ledger with no record of \<open>c\<close> dated after \<open>d1\<close> and on or before \<open>d2\<close>,
  the value of \<open>c\<close> at \<open>d2\<close> is its value at \<open>d1\<close>.
\<close>

theorem timelineData_locf:
  assumes wf: "\<forall>a\<in>set assets. wf_date (date a)"
  shows
  "(d \<in> date ` set assets \<longrightarrow>
      (\<exists>p\<in>set (timelineData assets). date_p p = d
          \<and> tw_inv p = categoryValues assets (getTime d) Tw_stock
          \<and> us_inv p = categoryValues assets (getTime d) Us_stock
          \<and> total p = dadd (dadd (dadd (categoryValues assets (getTime d) Tw_stock)
                                       (categoryValues assets (getTime d) Us_stock))
                                 (categoryValues assets (getTime d) Tw_cash))
                           (categoryValues assets (getTime d) Us_cash))
      \<and> ((\<exists>a\<in>set assets. type a = c \<and> date a \<le> d) \<longrightarrow>
            (\<exists>r. mostRecent assets c d r
                 \<and> categoryValues assets (getTime d) c = dmul (amount r) (exchangeRate r)))
      \<and> ((\<forall>a\<in>set assets. type a = c \<longrightarrow> \<not> date a \<le> d) \<longrightarrow>
            categoryValues assets (getTime d) c = 0))
   \<and> (d1 \<in> date ` set assets \<and> d2 \<in> date ` set assets \<and> d1 < d2
        \<and> (\<forall>a\<in>set assets. type a = c \<longrightarrow> \<not> (d1 < date a \<and> date a \<le> d2)) \<longrightarrow>
        categoryValues assets (getTime d2) c = categoryValues assets (getTime d1) c)"
proof (intro conjI impI)
  assume din: "d \<in> date ` set assets"
  then have "dataPoint assets d \<in> set (timelineData assets)"
    by (simp add: timelineData_set)
  moreover have "date_p (dataPoint assets d) = d"
    by (rule date_p_dataPoint)
  ultimately show "\<exists>p\<in>set (timelineData assets). date_p p = d
          \<and> tw_inv p = categoryValues assets (getTime d) Tw_stock
          \<and> us_inv p = categoryValues assets (getTime d) Us_stock
          \<and> total p = dadd (dadd (dadd (categoryValues assets (getTime d) Tw_stock)
                                       (categoryValues assets (getTime d) Us_stock))
                                 (categoryValues assets (getTime d) Tw_cash))
                           (categoryValues assets (getTime d) Us_cash)"
    by (intro bexI [of _ "dataPoint assets d"]) (simp_all add: dataPoint_def Let_def)
next
  assume din: "d \<in> date ` set assets" and ex: "\<exists>a\<in>set assets. type a = c \<and> date a \<le> d"
  have wd: "wf_date d"
    using wf din by auto
  show "\<exists>r. mostRecent assets c d r
      \<and> categoryValues assets (getTime d) c = dmul (amount r) (exchangeRate r)"
    by (rule categoryValues_mostRecent [OF wf wd ex])
next
  assume din: "d \<in> date ` set assets" and no: "\<forall>a\<in>set assets. type a = c \<longrightarrow> \<not> date a \<le> d"
  have wd: "wf_date d"
    using wf din by auto
  have "\<forall>a\<in>set assets. type a = c \<longrightarrow> \<not> le_num (getTime (date a)) (getTime d)"
    using no wf getTime_le_iff [OF _ wd] by blast
  then show "categoryValues assets (getTime d) c = 0"
    by (rule categoryValues_none)
next
  assume h: "d1 \<in> date ` set assets \<and> d2 \<in> date ` set assets \<and> d1 < d2
        \<and> (\<forall>a\<in>set assets. type a = c \<longrightarrow> \<not> (d1 < date a \<and> date a \<le> d2))"
  then have w1: "wf_date d1" and w2: "wf_date d2"
    using wf by auto
  have t1: "getTime d1 = Some (dayNumber d1 * msPerDay)" and t2: "getTime d2 = Some (dayNumber d2 * msPerDay)"
    using w1 w2 by (simp_all add: getTime_wf)
  have lt: "dayNumber d1 * msPerDay < dayNumber d2 * msPerDay"
    using h dayNumber_less_iff [OF w1 w2] by (simp add: msPerDay_def)
  have none: "\<forall>a\<in>set assets. type a = c \<longrightarrow>
      \<not> (\<exists>t. getTime (date a) = Some t \<and> dayNumber d1 * msPerDay < t \<and> t \<le> dayNumber d2 * msPerDay)"
  proof (intro ballI impI notI)
    fix a assume a: "a \<in> set assets" and ty: "type a = c"
      and "\<exists>t. getTime (date a) = Some t \<and> dayNumber d1 * msPerDay < t \<and> t \<le> dayNumber d2 * msPerDay"
    moreover have wa: "wf_date (date a)"
      using wf a by blast
    ultimately have "dayNumber d1 < dayNumber (date a)" "dayNumber (date a) \<le> dayNumber d2"
      by (simp_all add: getTime_wf msPerDay_def)
    then have "d1 < date a \<and> date a \<le> d2"
      using dayNumber_less_iff [OF w1 wa] dayNumber_le_iff [OF wa w2] by simp
    with h a ty show False
      by blast
  qed
  show "categoryValues assets (getTime d2) c = categoryValues assets (getTime d1) c"
    by (rule categoryValues_carried [OF t1 t2 lt none])
qed

theorem timelineData_locf_witness:
  "list_all (\<lambda>a. wf_date (date a)) cashLedger
   \<and> ''2025-06-30'' \<in> date ` set cashLedger
   \<and> (\<exists>p. p \<in> set (timelineData cashLedger) \<and> date_p p = ''2025-06-30''
          \<and> tw_inv p = categoryValues cashLedger (getTime ''2025-06-30'') Tw_stock)
   \<and> (\<exists>r. mostRecent cashLedger Tw_cash ''2025-06-30'' r
          \<and> categoryValues cashLedger (getTime ''2025-06-30'') Tw_cash = dmul (amount r) (exchangeRate r))
   \<and> categoryValues cashLedger (getTime ''2025-01-05'') Tw_cash = 0
   \<and> categoryValues cashLedger (getTime ''2026-01-05'') Tw_cash
        = categoryValues cashLedger (getTime ''2025-06-30'') Tw_cash"
proof -
  have w: "list_all (\<lambda>a. wf_date (date a)) cashLedger"
    by code_simp
  then have w': "\<forall>a\<in>set cashLedger. wf_date (date a)"
    unfolding list_all_iff .
  have d: "''2025-06-30'' \<in> date ` set cashLedger"
    by code_simp
  have d0: "''2025-01-05'' \<in> date ` set cashLedger"
    by code_simp
  have d2: "''2026-01-05'' \<in> date ` set cashLedger"
    by code_simp
  have ex: "\<exists>a\<in>set cashLedger. type a = Tw_cash \<and> date a \<le> ''2025-06-30''"
    by code_simp
  have no: "\<forall>a\<in>set cashLedger. type a = Tw_cash \<longrightarrow> \<not> date a \<le> ''2025-01-05''"
    by code_simp
  have lt: "''2025-06-30'' < ''2026-01-05''"
    by code_simp
  have gap: "\<forall>a\<in>set cashLedger. type a = Tw_cash \<longrightarrow> \<not> (''2025-06-30'' < date a \<and> date a \<le> ''2026-01-05'')"
    by code_simp
  note t = timelineData_locf [OF w', of "''2025-06-30''" Tw_cash "''2025-06-30''" "''2026-01-05''"]
  note t0 = timelineData_locf [OF w', of "''2025-01-05''" Tw_cash "''2025-06-30''" "''2026-01-05''"]
  have 1: "\<exists>p. p \<in> set (timelineData cashLedger) \<and> date_p p = ''2025-06-30''
          \<and> tw_inv p = categoryValues cashLedger (getTime ''2025-06-30'') Tw_stock"
    using t d by blast
  have 2: "\<exists>r. mostRecent cashLedger Tw_cash ''2025-06-30'' r
          \<and> categoryValues cashLedger (getTime ''2025-06-30'') Tw_cash = dmul (amount r) (exchangeRate r)"
    using t d ex by blast
  have 3: "categoryValues cashLedger (getTime ''2025-01-05'') Tw_cash = 0"
    using t0 d0 no by blast
  have 4: "categoryValues cashLedger (getTime ''2026-01-05'') Tw_cash
        = categoryValues cashLedger (getTime ''2025-06-30'') Tw_cash"
    using t d d2 lt gap by blast
  show ?thesis
    by (intro conjI w d 1 2 3 4)
qed

text \<open>
  Claim C4 says that the timeline depends on the multiset of the records only. It does
  not: \<open>sameDayLedger\<close> holds two records of one category and one date with values \<open>100\<close>
  and \<open>200\<close>; the timeline takes the one that comes first, so the reversed ledger gives
  another timeline.
\<close>

theorem timelineData_order_counterexample:
  "mset (rev sameDayLedger) = mset sameDayLedger
   \<and> timelineData (rev sameDayLedger) \<noteq> timelineData sameDayLedger"
proof
  show "mset (rev sameDayLedger) = mset sameDayLedger"
    by simp
  show "timelineData (rev sameDayLedger) \<noteq> timelineData sameDayLedger"
    by code_simp
qed

text \<open>
  Claim C4, amended. Two ledgers that are permutations of each other have the same
  timeline, provided that records of the same category and the same date carry the same
  value (amount times rate); in particular when no two records share category and date.
\<close>

theorem timelineData_permutation:
  assumes perm: "mset xs = mset ys"
    and same: "\<forall>a\<in>set xs. \<forall>b\<in>set xs. type a = type b \<and> date a = date b
                 \<longrightarrow> dmul (amount a) (exchangeRate a) = dmul (amount b) (exchangeRate b)"
  shows "timelineData xs = timelineData ys"
proof -
  have sets: "set xs = set ys"
    using perm by (rule mset_eq_setD)
  have u: "uniqueDates xs = uniqueDates ys"
    by (simp add: uniqueDates_eq sets)
  have e: "(xs = []) = (ys = [])"
    using sets by auto
  have "dataPoint xs d = dataPoint ys d" for d
    by (simp add: dataPoint_def Let_def categoryValues_perm [OF perm same])
  then show ?thesis
    using u e by (simp add: timelineData_def)
qed

theorem timelineData_permutation_witness:
  "mset (rev cashLedger) = mset cashLedger
   \<and> list_all (\<lambda>a. list_all (\<lambda>b. type a = type b \<and> date a = date b
         \<longrightarrow> dmul (amount a) (exchangeRate a) = dmul (amount b) (exchangeRate b)) cashLedger) cashLedger
   \<and> timelineData (rev cashLedger) = timelineData cashLedger"
proof -
  have p: "mset (rev cashLedger) = mset cashLedger"
    by simp
  have s: "list_all (\<lambda>a. list_all (\<lambda>b. type a = type b \<and> date a = date b
         \<longrightarrow> dmul (amount a) (exchangeRate a) = dmul (amount b) (exchangeRate b)) cashLedger) cashLedger"
    by code_simp
  have s': "\<forall>a\<in>set (rev cashLedger). \<forall>b\<in>set (rev cashLedger). type a = type b \<and> date a = date b
         \<longrightarrow> dmul (amount a) (exchangeRate a) = dmul (amount b) (exchangeRate b)"
    using s unfolding list_all_iff set_rev .
  have r: "timelineData (rev cashLedger) = timelineData cashLedger"
    by (rule timelineData_permutation [OF p s'])
  show ?thesis
    by (intro conjI p s r)
qed

text \<open>
  Claim C10. For a non-empty ledger with well-formed dates, the current status of every
  category is the value of that category at the date of the last point of the timeline;
  for the two stock categories it is the value stored in that point, and the current
  total is the total of that point. The current status of a category is \<open>0\<close> when the
  category has no record, and otherwise amount times rate (\<open>dmul\<close>) of a record of the
  category with the latest date.
\<close>

theorem currentStatus_is_last_point:
  assumes ne: "assets \<noteq> []" and wf: "\<forall>a\<in>set assets. wf_date (date a)"
  shows "currentStatus assets c = categoryValues assets (getTime (date_p (last (timelineData assets)))) c
    \<and> currentStatus assets Tw_stock = tw_inv (last (timelineData assets))
    \<and> currentStatus assets Us_stock = us_inv (last (timelineData assets))
    \<and> totalAssetsTwd assets = total (last (timelineData assets))
    \<and> ((\<forall>a\<in>set assets. type a \<noteq> c) \<longrightarrow> currentStatus assets c = 0)
    \<and> ((\<exists>a\<in>set assets. type a = c) \<longrightarrow>
          (\<exists>r\<in>set assets. type r = c \<and> (\<forall>a\<in>set assets. type a = c \<longrightarrow> date a \<le> date r)
              \<and> currentStatus assets c = dmul (amount r) (exchangeRate r)))"
proof -
  let ?d = "last (uniqueDates assets)"
  have lp: "last (timelineData assets) = dataPoint assets ?d"
    by (rule last_timelineData [OF ne])
  have cv: "\<And>c. categoryValues assets (getTime ?d) c = currentStatus assets c"
    by (rule categoryValues_at_last [OF ne wf])
  have din: "?d \<in> date ` set assets"
    using uniqueDates_not_Nil [OF ne] last_in_set [of "uniqueDates assets"] by (simp add: uniqueDates_set)
  have wd: "wf_date ?d"
    using wf din by auto
  have all_le: "\<forall>a\<in>set assets. date a \<le> ?d"
    by (intro ballI sorted_le_last uniqueDates_sorted) (simp add: uniqueDates_set)
  have 1: "currentStatus assets c = categoryValues assets (getTime (date_p (last (timelineData assets)))) c"
    by (simp add: lp date_p_dataPoint cv)
  have 2: "currentStatus assets Tw_stock = tw_inv (last (timelineData assets))"
    by (simp add: lp dataPoint_def Let_def cv)
  have 3: "currentStatus assets Us_stock = us_inv (last (timelineData assets))"
    by (simp add: lp dataPoint_def Let_def cv)
  have 4: "totalAssetsTwd assets = total (last (timelineData assets))"
    by (simp add: lp dataPoint_def Let_def cv totalAssetsTwd_def assetTypes_def dadd_0_currentStatus)
  have 5: "(\<forall>a\<in>set assets. type a \<noteq> c) \<longrightarrow> currentStatus assets c = 0"
  proof
    assume "\<forall>a\<in>set assets. type a \<noteq> c"
    then have "filter (\<lambda>a. type a = c) assets = []"
      by (simp add: filter_empty_conv)
    then show "currentStatus assets c = 0"
      by (simp add: currentStatus_eq latestValue_Nil)
  qed
  have 6: "(\<exists>a\<in>set assets. type a = c) \<longrightarrow>
          (\<exists>r\<in>set assets. type r = c \<and> (\<forall>a\<in>set assets. type a = c \<longrightarrow> date a \<le> date r)
              \<and> currentStatus assets c = dmul (amount r) (exchangeRate r))"
  proof
    assume "\<exists>a\<in>set assets. type a = c"
    then have "\<exists>a\<in>set assets. type a = c \<and> date a \<le> ?d"
      using all_le by blast
    with categoryValues_mostRecent [OF wf wd]
    obtain r where r: "mostRecent assets c ?d r"
      and v: "categoryValues assets (getTime ?d) c = dmul (amount r) (exchangeRate r)"
      by blast
    have "r \<in> set assets" "type r = c" "\<forall>a\<in>set assets. type a = c \<longrightarrow> date a \<le> date r"
      using r all_le by (auto simp: mostRecent_def)
    with v cv show "\<exists>r\<in>set assets. type r = c \<and> (\<forall>a\<in>set assets. type a = c \<longrightarrow> date a \<le> date r)
              \<and> currentStatus assets c = dmul (amount r) (exchangeRate r)"
      by auto
  qed
  from 1 2 3 4 5 6 show ?thesis
    by blast
qed

theorem currentStatus_is_last_point_witness:
  "cashLedger \<noteq> []
   \<and> list_all (\<lambda>a. wf_date (date a)) cashLedger
   \<and> map (currentStatus cashLedger) assetTypes = [147107, 6170905 / 2, 50000, 32000]
   \<and> currentStatus cashLedger Tw_stock = tw_inv (last (timelineData cashLedger))
   \<and> currentStatus cashLedger Us_stock = us_inv (last (timelineData cashLedger))
   \<and> currentStatus cashLedger Tw_cash
        = categoryValues cashLedger (getTime (date_p (last (timelineData cashLedger)))) Tw_cash
   \<and> totalAssetsTwd cashLedger = total (last (timelineData cashLedger))"
proof -
  have n: "cashLedger \<noteq> []"
    by code_simp
  have w: "list_all (\<lambda>a. wf_date (date a)) cashLedger"
    by code_simp
  then have w': "\<forall>a\<in>set cashLedger. wf_date (date a)"
    unfolding list_all_iff .
  have c: "map (currentStatus cashLedger) assetTypes = [147107, 6170905 / 2, 50000, 32000]"
    by code_simp
  note t = currentStatus_is_last_point [OF n w', of Tw_cash]
  have 1: "currentStatus cashLedger Tw_stock = tw_inv (last (timelineData cashLedger))"
    using t by blast
  have 2: "currentStatus cashLedger Us_stock = us_inv (last (timelineData cashLedger))"
    using t by blast
  have 3: "currentStatus cashLedger Tw_cash
        = categoryValues cashLedger (getTime (date_p (last (timelineData cashLedger)))) Tw_cash"
    using t by blast
  have 4: "totalAssetsTwd cashLedger = total (last (timelineData cashLedger))"
    using t by blast
  show ?thesis
    by (intro conjI n w c 1 2 3 4)
qed

text \<open>
  Claim C9 gives the totals 2,647,172.5 and 3,232,554.5 for the initial ledger. These
  are not the totals of the timeline.
\<close>

theorem example_counterexample:
  "\<not> (map total (timelineData exampleAssets) = [5294345 / 2, 6465109 / 2])"
  by code_simp

text \<open>
  Claim C9, amended. The timeline of the initial ledger has exactly two points, with
  totals 2,647,172 (for 2025-01-05) and 3,232,559.5 (for 2026-01-05). The annual growth
  of 2026 on the total compares these two values; computed in doubles it is
  22.113693405641946, between 22.11 and 22.115 percent, so it is shown as 22.11.
\<close>

theorem example_timeline:
  "timelineData exampleAssets =
     [\<lparr> date_p = ''2025-01-05'', total = 2647172, investment = 2647172, us_inv = 2539225, tw_inv = 107947 \<rparr>,
      \<lparr> date_p = ''2026-01-05'', total = 6465119 / 2, investment = 6465119 / 2, us_inv = 6170905 / 2,
        tw_inv = 147107 \<rparr>]
   \<and> calculateAnnualGrowth (timelineData exampleAssets) Total ''2026''
       = \<lparr> growth = Some (dmul (ddiv (dsub (6465119 / 2) 2647172) 2647172) 100),
           startVal = 2647172, endVal = 6465119 / 2 \<rparr>
   \<and> dmul (ddiv (dsub (6465119 / 2) 2647172) 2647172) 100 = 3112225668169827 / 140737488355328
   \<and> (2211 / 100 :: rat) < 3112225668169827 / 140737488355328
   \<and> (3112225668169827 / 140737488355328 :: rat) < 22115 / 1000"
proof -
  have 1: "timelineData exampleAssets =
     [\<lparr> date_p = ''2025-01-05'', total = 2647172, investment = 2647172, us_inv = 2539225, tw_inv = 107947 \<rparr>,
      \<lparr> date_p = ''2026-01-05'', total = 6465119 / 2, investment = 6465119 / 2, us_inv = 6170905 / 2,
        tw_inv = 147107 \<rparr>]"
    by code_simp
  have g: "dmul (ddiv (dsub (6465119 / 2) 2647172) 2647172) 100 = 3112225668169827 / 140737488355328"
    by code_simp
  have "calculateAnnualGrowth (timelineData exampleAssets) Total ''2026''
       = \<lparr> growth = Some (3112225668169827 / 140737488355328), startVal = 2647172, endVal = 6465119 / 2 \<rparr>"
    unfolding 1 by code_simp
  then have 2: "calculateAnnualGrowth (timelineData exampleAssets) Total ''2026''
       = \<lparr> growth = Some (dmul (ddiv (dsub (6465119 / 2) 2647172) 2647172) 100),
           startVal = 2647172, endVal = 6465119 / 2 \<rparr>"
    unfolding g .
  have 3: "(2211 / 100 :: rat) < 3112225668169827 / 140737488355328"
    by simp
  have 4: "(3112225668169827 / 140737488355328 :: rat) < 22115 / 1000"
    by simp
  show ?thesis
    by (intro conjI 1 2 g 3 4)
qed

section \<open>Growth\<close>







lemma targetDateOf_taipei:
  "targetDateOf taipei \<lparr> date_p = ''2025-03-31'', total = 0, investment = 0, us_inv = 0, tw_inv = 0 \<rparr> 1
     = getTime ''2025-03-03''"
  by code_simp

lemma targetDateOf_west_of_UTC:
  "targetDateOf (\<lambda>t isUTC. - 18000000)
      \<lparr> date_p = ''2025-03-01'', total = 0, investment = 0, us_inv = 0, tw_inv = 0 \<rparr> 1
     = getTime ''2025-01-29''"
  by code_simp




lemma filter_in_year:
  assumes wf: "\<forall>p\<in>set points. wf_date (date_p p)" and wy: "wf_year year"
  shows "filter (\<lambda>d. startsWith (date_p d) year) points = pointsIn points (digits year)"
  unfolding pointsIn_def
  by (rule filter_cong [OF refl]) (use wf wy in \<open>simp add: startsWith_year\<close>)

lemma filter_before_year:
  assumes wf: "\<forall>p\<in>set points. wf_date (date_p p)" and wy: "wf_year year"
  shows "filter (\<lambda>d. date_p d < year @ ''-01-01'') points = pointsBefore points (digits year)"
  unfolding pointsBefore_def
  by (rule filter_cong [OF refl]) (use wf wy in \<open>simp add: before_year\<close>)

lemma calculateAnnualGrowth_eq:
  assumes wf: "\<forall>p\<in>set points. wf_date (date_p p)" and wy: "wf_year year"
    and ne: "pointsIn points (digits year) \<noteq> []"
  shows "calculateAnnualGrowth points chartMode year =
     (if pointsBefore points (digits year) \<noteq> []
      then growthFrom (metric chartMode (last (pointsBefore points (digits year))))
             (metric chartMode (last (pointsIn points (digits year))))
      else if length (pointsIn points (digits year)) = 1
      then \<lparr> growth = None, startVal = 0, endVal = metric chartMode (last (pointsIn points (digits year))) \<rparr>
      else growthFrom (metric chartMode (hd (pointsIn points (digits year))))
             (metric chartMode (last (pointsIn points (digits year)))))"
proof -
  let ?I = "pointsIn points (digits year)" and ?B = "pointsBefore points (digits year)"
  have pne: "length points \<noteq> 0"
    using ne by (auto simp: pointsIn_def)
  have ine: "length ?I \<noteq> 0"
    using ne by simp
  have li: "?I ! (length ?I - 1) = last ?I"
    using ne by (rule nth_last)
  have hi: "?I ! 0 = hd ?I"
    using ne by (rule nth_first)
  have c: "calculateAnnualGrowth points chartMode year =
     (if length ?B > 0
      then growthFrom (metric chartMode (?B ! (length ?B - 1))) (metric chartMode (last ?I))
      else if length ?I = 1
      then \<lparr> growth = None, startVal = 0, endVal = metric chartMode (last ?I) \<rparr>
      else growthFrom (metric chartMode (hd ?I)) (metric chartMode (last ?I)))"
    unfolding calculateAnnualGrowth_def Let_def filter_in_year [OF wf wy] filter_before_year [OF wf wy]
      li hi
    using pne ine by (simp only: if_False)
  show ?thesis
  proof (cases "?B = []")
    case True
    then show ?thesis
      unfolding c by simp
  next
    case False
    then have "?B ! (length ?B - 1) = last ?B"
      by (rule nth_last)
    with False show ?thesis
      unfolding c by simp
  qed
qed

text \<open>
  Claim C6. On a timeline of no point or one point (with a well-formed date), the
  trailing growth is \<^verbatim>\<open>null\<close> for every number of months, and the annual growth has
  growth \<^verbatim>\<open>null\<close> for every year (a string of four digits).
\<close>

theorem growth_insufficient_data:
  assumes len: "length points \<le> 1"
    and wf: "\<forall>p\<in>set points. wf_date (date_p p)" and wy: "wf_year year"
  shows "calculateTrailingGrowth tza points months mode = None
    \<and> growth (calculateAnnualGrowth points chartMode year) = None"
proof
  show "calculateTrailingGrowth tza points months mode = None"
    using len by (simp add: calculateTrailingGrowth_def)
next
  show "growth (calculateAnnualGrowth points chartMode year) = None"
  proof (cases points)
    case Nil
    then show ?thesis
      by (simp add: calculateAnnualGrowth_def)
  next
    case (Cons p ps)
    then have ps: "points = [p]"
      using len by simp
    show ?thesis
    proof (cases "pointsIn points (digits year) = []")
      case True
      then show ?thesis
        by (simp add: calculateAnnualGrowth_def Let_def filter_in_year [OF wf wy])
    next
      case False
      then have "yearOf (date_p p) = digits year"
        by (auto simp: ps pointsIn_def split: if_splits)
      then have "pointsBefore points (digits year) = []" "length (pointsIn points (digits year)) = 1"
        by (simp_all add: ps pointsBefore_def pointsIn_def)
      then show ?thesis
        by (simp add: calculateAnnualGrowth_eq [OF wf wy False])
    qed
  qed
qed

theorem growth_insufficient_data_witness:
  "length (take 1 cashTimeline) = 1
   \<and> list_all (\<lambda>p. wf_date (date_p p)) (take 1 cashTimeline)
   \<and> wf_year ''2025''
   \<and> calculateTrailingGrowth taipei (take 1 cashTimeline) 12 Total = None
   \<and> growth (calculateAnnualGrowth (take 1 cashTimeline) Total ''2025'') = None"
proof -
  have l: "length (take 1 cashTimeline) = 1"
    by code_simp
  have w: "list_all (\<lambda>p. wf_date (date_p p)) (take 1 cashTimeline)"
    by code_simp
  then have w': "\<forall>p\<in>set (take 1 cashTimeline). wf_date (date_p p)"
    unfolding list_all_iff .
  have y: "wf_year ''2025''"
    by code_simp
  have l': "length (take 1 cashTimeline) \<le> 1"
    using l by simp
  note t = growth_insufficient_data [OF l' w' y, of taipei 12 Total Total]
  show ?thesis
    by (intro conjI l w y conjunct1 [OF t] conjunct2 [OF t])
qed

text \<open>
  Claim C7. Let the dates of the timeline be well formed and let the year have at least
  one point. The end value is the value of the last point of the year. When there are
  points of earlier years, the start value is the value of the last of them. Otherwise,
  when the year has one point only, the growth is \<^verbatim>\<open>null\<close> (and the start value is
  reported as \<open>0\<close>); when it has several, the start value is the value of its first
  point. Except in the one-point case, the growth is \<^verbatim>\<open>null\<close> when the start value is
  \<open>0\<close>, the start and end values being reported all the same, and otherwise the
  difference of end and start value divided by the start value, times \<open>100\<close>, in doubles.
\<close>

theorem calculateAnnualGrowth_by_year:
  assumes wf: "\<forall>p\<in>set points. wf_date (date_p p)" and wy: "wf_year year"
    and ne: "pointsIn points (digits year) \<noteq> []"
  shows "endVal (calculateAnnualGrowth points chartMode year)
            = metric chartMode (last (pointsIn points (digits year)))
    \<and> (pointsBefore points (digits year) \<noteq> [] \<longrightarrow>
          startVal (calculateAnnualGrowth points chartMode year)
            = metric chartMode (last (pointsBefore points (digits year))))
    \<and> (pointsBefore points (digits year) = [] \<and> length (pointsIn points (digits year)) = 1 \<longrightarrow>
          growth (calculateAnnualGrowth points chartMode year) = None
          \<and> startVal (calculateAnnualGrowth points chartMode year) = 0)
    \<and> (pointsBefore points (digits year) = [] \<and> length (pointsIn points (digits year)) \<noteq> 1 \<longrightarrow>
          startVal (calculateAnnualGrowth points chartMode year)
            = metric chartMode (hd (pointsIn points (digits year))))
    \<and> (\<not> (pointsBefore points (digits year) = [] \<and> length (pointsIn points (digits year)) = 1) \<longrightarrow>
          growth (calculateAnnualGrowth points chartMode year)
            = (if startVal (calculateAnnualGrowth points chartMode year) = 0 then None
               else Some (dmul (ddiv (dsub (endVal (calculateAnnualGrowth points chartMode year))
                                           (startVal (calculateAnnualGrowth points chartMode year)))
                                     (startVal (calculateAnnualGrowth points chartMode year))) 100)))"
  unfolding calculateAnnualGrowth_eq [OF wf wy ne]
  by (simp add: growthFrom_def)

theorem calculateAnnualGrowth_by_year_witness:
  "list_all (\<lambda>p. wf_date (date_p p)) cashTimeline
   \<and> wf_year ''2026''
   \<and> map date_p (pointsIn cashTimeline (digits ''2026'')) = [''2026-01-05'']
   \<and> map date_p (pointsBefore cashTimeline (digits ''2026''))
        = [''2025-01-05'', ''2025-03-10'', ''2025-06-30'']
   \<and> endVal (calculateAnnualGrowth cashTimeline Total ''2026'') = 6629119 / 2
   \<and> startVal (calculateAnnualGrowth cashTimeline Total ''2026'') = 2729172
   \<and> growth (calculateAnnualGrowth cashTimeline Total ''2026'')
        = Some (dmul (ddiv (dsub (6629119 / 2) 2729172) 2729172) 100)"
proof -
  let ?r = "calculateAnnualGrowth cashTimeline Total ''2026''"
  have w: "list_all (\<lambda>p. wf_date (date_p p)) cashTimeline"
    by code_simp
  then have w': "\<forall>p\<in>set cashTimeline. wf_date (date_p p)"
    unfolding list_all_iff .
  have y: "wf_year ''2026''"
    by code_simp
  have i: "map date_p (pointsIn cashTimeline (digits ''2026'')) = [''2026-01-05'']"
    by code_simp
  have b: "map date_p (pointsBefore cashTimeline (digits ''2026''))
        = [''2025-01-05'', ''2025-03-10'', ''2025-06-30'']"
    by code_simp
  have ine: "pointsIn cashTimeline (digits ''2026'') \<noteq> []"
    using i by auto
  have bne: "pointsBefore cashTimeline (digits ''2026'') \<noteq> []"
    using b by auto
  have li: "metric Total (last (pointsIn cashTimeline (digits ''2026''))) = 6629119 / 2"
    by code_simp
  have lb: "metric Total (last (pointsBefore cashTimeline (digits ''2026''))) = 2729172"
    by code_simp
  note t = calculateAnnualGrowth_by_year [OF w' y ine, of Total]
  have e: "endVal ?r = 6629119 / 2"
    using t li by simp
  have s: "startVal ?r = 2729172"
    using t bne lb by simp
  have "growth ?r = (if startVal ?r = 0 then None
                     else Some (dmul (ddiv (dsub (endVal ?r) (startVal ?r)) (startVal ?r)) 100))"
    using t bne by blast
  then have g: "growth ?r = Some (dmul (ddiv (dsub (6629119 / 2) 2729172) 2729172) 100)"
    unfolding e s by simp
  show ?thesis
    by (intro conjI w y i b e s g)
qed

section \<open>The chart period\<close>

lemma civilD:
  assumes "civil tza t (y, m, d) tod"
  shows "validDate (y, m, d)" "0 \<le> tod" "tod < msPerDay"
    "LocalTime tza t = MakeDate (MakeDay y (m - 1) d) tod"
    "1 \<le> m" "m \<le> 12" "1 \<le> d" "d \<le> 31"
proof -
  show v: "validDate (y, m, d)" and "0 \<le> tod" "tod < msPerDay"
    "LocalTime tza t = MakeDate (MakeDay y (m - 1) d) tod"
    using assms by (simp_all add: civil_def)
  then show "1 \<le> m" "m \<le> 12" "1 \<le> d"
    by (simp_all add: validDate_def)
  show "d \<le> 31"
    using v DaysInMonth_le [of y m] by (simp add: validDate_def)
qed

lemma getMonth_civil:
  assumes "civil tza t (y, m, d) tod"
  shows "getMonth tza (Some t) = Some (m - 1)" and "getFullYear tza (Some t) = Some y"
  using civil_roundtrip [OF civilD(1-3) [OF assms]]
  by (simp_all add: getMonth_def getFullYear_def civilD(4) [OF assms])

lemma setMonth_civil:
  assumes "civil tza t (y, m, d) tod"
  shows "setMonth tza (Some t) (Some mi) = TimeClip (UTC tza (MakeDate (MakeDay y mi d) tod))"
  using civil_roundtrip [OF civilD(1-3) [OF assms]]
  by (simp add: setMonth_def Let_def civilD(4) [OF assms])

lemma setFullYear_civil:
  assumes "civil tza t (y, m, d) tod"
  shows "setFullYear tza (Some t) (Some yr) = TimeClip (UTC tza (MakeDate (MakeDay yr (m - 1) d) tod))"
  using civil_roundtrip [OF civilD(1-3) [OF assms]]
  by (simp add: setFullYear_def Let_def civilD(4) [OF assms])

lemma cutoffFor_civil:
  assumes now: "civil tza now (yn, mn, dn) todn"
    and cut: "civil tza cutoff0 (y, m, d) tod"
    and P: "chartPeriod \<noteq> PAll"
  shows "validDate (cutoffCivil chartPeriod (yn, mn) (y, m, d))"
    and "cutoffFor tza now cutoff0 chartPeriod
          = TimeClip (UTC tza (MakeDate
              (MakeDay (fst (cutoffCivil chartPeriod (yn, mn) (y, m, d)))
                       (fst (snd (cutoffCivil chartPeriod (yn, mn) (y, m, d))) - 1)
                       (snd (snd (cutoffCivil chartPeriod (yn, mn) (y, m, d))))) tod))"
proof -
  note c = civilD [OF cut]
  note g = getMonth_civil [OF now]
  have mo: "validDate (carryDate (fst (monthsBefore y mn k)) (snd (monthsBefore y mn k)) d)"
    "MakeDay y (mn - 1 - k) d
      = MakeDay (fst (carryDate (fst (monthsBefore y mn k)) (snd (monthsBefore y mn k)) d))
                (fst (snd (carryDate (fst (monthsBefore y mn k)) (snd (monthsBefore y mn k)) d)) - 1)
                (snd (snd (carryDate (fst (monthsBefore y mn k)) (snd (monthsBefore y mn k)) d)))" for k
    using carryDate_valid [OF MakeDay_monthsBefore(2) [of y mn k] MakeDay_monthsBefore(3) [of y mn k] c(7) c(8),
        of "fst (monthsBefore y mn k)"]
      MakeDay_monthsBefore(1) [of y mn k d] by simp_all
  have yr: "validDate (carryDate yr m d)"
    "MakeDay yr (m - 1) d
      = MakeDay (fst (carryDate yr m d)) (fst (snd (carryDate yr m d)) - 1) (snd (snd (carryDate yr m d)))" for yr
    using carryDate_valid [OF c(5,6,7,8), of yr] by simp_all
  show "validDate (cutoffCivil chartPeriod (yn, mn) (y, m, d))"
    using P mo(1) yr(1) by (cases chartPeriod) (simp_all add: cutoffCivil_def split_beta)
  show "cutoffFor tza now cutoff0 chartPeriod
          = TimeClip (UTC tza (MakeDate
              (MakeDay (fst (cutoffCivil chartPeriod (yn, mn) (y, m, d)))
                       (fst (snd (cutoffCivil chartPeriod (yn, mn) (y, m, d))) - 1)
                       (snd (snd (cutoffCivil chartPeriod (yn, mn) (y, m, d))))) tod))"
  proof (cases chartPeriod)
    case P1m
    then show ?thesis
      using mo(2) [of 1] by (simp add: cutoffFor_def Let_def g setMonth_civil [OF cut] cutoffCivil_def split_beta)
  next
    case P3m
    then show ?thesis
      using mo(2) [of 3] by (simp add: cutoffFor_def Let_def g setMonth_civil [OF cut] cutoffCivil_def split_beta)
  next
    case P6m
    then show ?thesis
      using mo(2) [of 6] by (simp add: cutoffFor_def Let_def g setMonth_civil [OF cut] cutoffCivil_def split_beta)
  next
    case P1y
    then show ?thesis
      using yr(2) [of "yn - 1"] by (simp add: cutoffFor_def Let_def g setFullYear_civil [OF cut] cutoffCivil_def)
  next
    case P3y
    then show ?thesis
      using yr(2) [of "yn - 3"] by (simp add: cutoffFor_def Let_def g setFullYear_civil [OF cut] cutoffCivil_def)
  next
    case PAll
    with P show ?thesis by simp
  qed
qed

lemma filter_ge_num:
  assumes wf: "\<forall>p\<in>set points. wf_date (date_p p)"
  shows "filter (\<lambda>d. ge_num (getTime (date_p d)) c) points
       = (case c of None \<Rightarrow> [] | Some c' \<Rightarrow> filter (\<lambda>p. c' \<le> dayNumber (date_p p) * msPerDay) points)"
proof (cases c)
  case None
  then show ?thesis
    by (simp add: ge_num_def split: option.splits)
next
  case (Some c')
  have "filter (\<lambda>d. ge_num (getTime (date_p d)) (Some c')) points
      = filter (\<lambda>p. c' \<le> dayNumber (date_p p) * msPerDay) points"
    by (rule filter_cong [OF refl]) (use wf in \<open>simp add: getTime_wf ge_num_def\<close>)
  with Some show ?thesis
    by simp
qed

lemma boundary_day:
  assumes off: "0 \<le> off" "off < msPerDay" and tod: "0 \<le> tod" "tod < msPerDay"
  shows "(n * msPerDay + tod - off \<le> k * msPerDay) = (n < k \<or> (n = k \<and> tod \<le> off))"
proof -
  have "n < k \<or> n = k \<or> k < n"
    by arith
  then show ?thesis
  proof (elim disjE)
    assume "n < k"
    then have "n + 1 \<le> k" by simp
    then have "(n + 1) * msPerDay \<le> k * msPerDay"
      by (intro mult_right_mono) (simp_all add: msPerDay_def)
    then show ?thesis
      using \<open>n < k\<close> off tod by (simp add: algebra_simps)
  next
    assume "n = k"
    then show ?thesis by auto
  next
    assume "k < n"
    then have "k + 1 \<le> n" by simp
    then have "(k + 1) * msPerDay \<le> n * msPerDay"
      by (intro mult_right_mono) (simp_all add: msPerDay_def)
    then show ?thesis
      using \<open>k < n\<close> off tod by (simp add: algebra_simps)
  qed
qed


lemma civil_exists: "\<exists>y m d tod. civil tza t (y, m, d) tod"
proof -
  define l where "l = LocalTime tza t"
  define n where "n = l div msPerDay"
  define tod where "tod = l mod msPerDay"
  define y where "y = YearFromDay n"
  have tod: "0 \<le> tod" "tod < msPerDay"
    by (simp_all add: tod_def msPerDay_def)
  have l: "l = MakeDate n tod"
    by (simp add: MakeDate_def n_def tod_def)
  have "DayFromYear y \<le> n" "n < DayFromYear y + DaysInYear y"
    using YearFromDay_spec [of n] by (simp_all add: y_def DayFromYear_step)
  then have "0 \<le> n - DayFromYear y" "n - DayFromYear y < DaysInYear y"
    by simp_all
  from month_of_day [OF this] obtain m d where v: "validDate (y, m, d)"
    and w: "n - DayFromYear y = monthStart (leapDays y) (m - 1) + d - 1"
    by blast
  have m: "1 \<le> m" "m \<le> 12"
    using v by (simp_all add: validDate_def)
  have "MakeDay y (m - 1) d = n"
    using MakeDay_valid [OF m, of y d] w by simp
  then have "civil tza t (y, m, d) tod"
    using v tod l by (simp add: civil_def l_def)
  then show ?thesis
    by blast
qed

text \<open>
  Claim C8 takes the reference instant less the period, in calendar months or years, as
  the cutoff. The program sets the month of the reference date back and keeps the day of
  the month; a day that the earlier month does not have runs over into the month after
  it. At noon of 31 March 2025 in Taipei the cutoff of one month is noon of 3 March (there
  is no 31 February), and of \<open>marchPoints\<close> the points of 4 and 31 March are returned. The
  point of 2 March is not, although it lies after noon of the last day of February, and
  so within one calendar month before the reference instant.
\<close>

theorem filteredTimeline_overflow_counterexample:
  "civil taipei 1743393600000 (2025, 3, 31) 43200000
   \<and> map date_p (filteredTimeline taipei 1743393600000 1743393600000 P1m marchPoints)
        = [''2025-03-04'', ''2025-03-31'']
   \<and> cutoffFor taipei 1743393600000 1743393600000 P1m = Some 1740974400000
   \<and> civil taipei 1740974400000 (2025, 3, 3) 43200000
   \<and> \<not> validDate (2025, 2, 31)
   \<and> civil taipei 1740715200000 (2025, 2, 28) 43200000
   \<and> getTime ''2025-03-02'' = Some 1740873600000
   \<and> (1740715200000 :: int) \<le> 1740873600000
   \<and> ''2025-03-02'' \<in> set (map date_p marchPoints)"
proof -
  have 1: "civil taipei 1743393600000 (2025, 3, 31) 43200000"
    by code_simp
  have 2: "map date_p (filteredTimeline taipei 1743393600000 1743393600000 P1m marchPoints)
        = [''2025-03-04'', ''2025-03-31'']"
    by code_simp
  have 3: "cutoffFor taipei 1743393600000 1743393600000 P1m = Some 1740974400000"
    by code_simp
  have 4: "civil taipei 1740974400000 (2025, 3, 3) 43200000"
    by code_simp
  have 5: "\<not> validDate (2025, 2, 31)"
    by code_simp
  have 6: "civil taipei 1740715200000 (2025, 2, 28) 43200000"
    by code_simp
  have 7: "getTime ''2025-03-02'' = Some 1740873600000"
    by code_simp
  have 8: "(1740715200000 :: int) \<le> 1740873600000"
    by simp
  have 9: "''2025-03-02'' \<in> set (map date_p marchPoints)"
    by code_simp
  show ?thesis
    by (intro conjI 1 2 3 4 5 6 7 8 9)
qed

text \<open>
  Claim C8, amended. With the period \<^verbatim>\<open>'all'\<close> the timeline is returned as it is. Let the
  first reading of the clock be the date \<open>(yn, mn, dn)\<close> and the second the date
  \<open>(y, m, d)\<close> at the time of day \<open>tod\<close>, on the local calendar, and let the dates of the
  points be well formed. With a bounded period, the cutoff is the time of day \<open>tod\<close> of the
  date \<open>cutoffCivil\<close>: day \<open>d\<close> of the month 1, 3 or 6 months before month \<open>mn\<close> of year \<open>y\<close>,
  or day \<open>d\<close> of month \<open>m\<close> of the year 1 or 3 years before \<open>yn\<close>, a day beyond the end of
  that month being counted on into the following month. The points returned are, in their
  order, those whose date, taken as midnight UTC, is not before the cutoff, and none when
  the cutoff is outside the range of time values. In a time zone of constant offset at or
  east of Greenwich these are the points dated after the date of the cutoff, and those
  dated on it when \<open>tod\<close> is at most the offset, the cutoff then being no later than
  midnight UTC of its date. Every instant is some date at some time of day
  (\<open>civil_exists\<close>).
\<close>

theorem filteredTimeline_civil:
  assumes now: "civil tza now (yn, mn, dn) todn"
    and cut: "civil tza cutoff0 (y, m, d) tod"
    and wf: "\<forall>p\<in>set points. wf_date (date_p p)"
  shows "filteredTimeline tza now cutoff0 PAll points = points
    \<and> (chartPeriod \<noteq> PAll \<longrightarrow>
        (case cutoffCivil chartPeriod (yn, mn) (y, m, d) of (y', m', d') \<Rightarrow>
           validDate (y', m', d')
         \<and> filteredTimeline tza now cutoff0 chartPeriod points
             = (case TimeClip (UTC tza (MakeDate (MakeDay y' (m' - 1) d') tod)) of
                  None \<Rightarrow> []
                | Some c \<Rightarrow> filter (\<lambda>p. c \<le> dayNumber (date_p p) * msPerDay) points)
         \<and> ((\<forall>t u. tza t u = off) \<and> 0 \<le> off \<and> off < msPerDay
              \<and> TimeClip (UTC tza (MakeDate (MakeDay y' (m' - 1) d') tod)) \<noteq> None \<longrightarrow>
              filteredTimeline tza now cutoff0 chartPeriod points
                = filter (\<lambda>p. MakeDay y' (m' - 1) d' < dayNumber (date_p p)
                              \<or> (MakeDay y' (m' - 1) d' = dayNumber (date_p p) \<and> tod \<le> off)) points)))"
proof (intro conjI impI)
  show "filteredTimeline tza now cutoff0 PAll points = points"
    by (simp add: filteredTimeline_def)
next
  assume P: "chartPeriod \<noteq> PAll"
  obtain y' m' d' where c: "cutoffCivil chartPeriod (yn, mn) (y, m, d) = (y', m', d')"
    by (cases "cutoffCivil chartPeriod (yn, mn) (y, m, d)") auto
  let ?c = "TimeClip (UTC tza (MakeDate (MakeDay y' (m' - 1) d') tod))"
  have v: "validDate (y', m', d')"
    using cutoffFor_civil(1) [OF now cut P] by (simp add: c)
  have cf: "cutoffFor tza now cutoff0 chartPeriod = ?c"
    using cutoffFor_civil(2) [OF now cut P] by (simp add: c)
  have f: "filteredTimeline tza now cutoff0 chartPeriod points
             = (case ?c of None \<Rightarrow> []
                | Some c \<Rightarrow> filter (\<lambda>p. c \<le> dayNumber (date_p p) * msPerDay) points)"
    using P by (simp add: filteredTimeline_def Let_def cf filter_ge_num [OF wf])
  have g: "filteredTimeline tza now cutoff0 chartPeriod points
                = filter (\<lambda>p. MakeDay y' (m' - 1) d' < dayNumber (date_p p)
                              \<or> (MakeDay y' (m' - 1) d' = dayNumber (date_p p) \<and> tod \<le> off)) points"
    if h: "(\<forall>t u. tza t u = off) \<and> 0 \<le> off \<and> off < msPerDay \<and> ?c \<noteq> None"
  proof -
    have z: "\<forall>t u. tza t u = off" and o: "0 \<le> off" "off < msPerDay" and n: "?c \<noteq> None"
      using h by simp_all
    have u: "UTC tza (MakeDate (MakeDay y' (m' - 1) d') tod) = MakeDay y' (m' - 1) d' * msPerDay + tod - off"
      using z by (simp add: UTC_def MakeDate_def)
    have "?c = Some (MakeDay y' (m' - 1) d' * msPerDay + tod - off)"
      using n unfolding u by (simp add: TimeClip_def split: if_splits)
    then have "filteredTimeline tza now cutoff0 chartPeriod points
        = filter (\<lambda>p. MakeDay y' (m' - 1) d' * msPerDay + tod - off \<le> dayNumber (date_p p) * msPerDay) points"
      unfolding f by simp
    then show ?thesis
      by (simp only: boundary_day [OF o civilD(2,3) [OF cut]])
  qed
  show "case cutoffCivil chartPeriod (yn, mn) (y, m, d) of (y', m', d') \<Rightarrow>
           validDate (y', m', d')
         \<and> filteredTimeline tza now cutoff0 chartPeriod points
             = (case TimeClip (UTC tza (MakeDate (MakeDay y' (m' - 1) d') tod)) of
                  None \<Rightarrow> []
                | Some c \<Rightarrow> filter (\<lambda>p. c \<le> dayNumber (date_p p) * msPerDay) points)
         \<and> ((\<forall>t u. tza t u = off) \<and> 0 \<le> off \<and> off < msPerDay
              \<and> TimeClip (UTC tza (MakeDate (MakeDay y' (m' - 1) d') tod)) \<noteq> None \<longrightarrow>
              filteredTimeline tza now cutoff0 chartPeriod points
                = filter (\<lambda>p. MakeDay y' (m' - 1) d' < dayNumber (date_p p)
                              \<or> (MakeDay y' (m' - 1) d' = dayNumber (date_p p) \<and> tod \<le> off)) points)"
    unfolding c prod.case using v f g by blast
qed

theorem filteredTimeline_civil_witness:
  "civil taipei 1743393600000 (2025, 3, 31) 43200000
   \<and> list_all (\<lambda>p. wf_date (date_p p)) marchPoints
   \<and> cutoffCivil P1m (2025, 3) (2025, 3, 31) = (2025, 3, 3)
   \<and> cutoffCivil P1y (2024, 2) (2024, 2, 29) = (2023, 3, 1)
   \<and> cutoffCivil P3m (2025, 3) (2025, 3, 31) = (2024, 12, 31)
   \<and> TimeClip (UTC taipei (MakeDate (MakeDay 2025 (3 - 1) 3) 43200000)) = Some 1740974400000
   \<and> map date_p (filteredTimeline taipei 1743393600000 1743393600000 P1m marchPoints)
        = [''2025-03-04'', ''2025-03-31'']
   \<and> civil taipei 1743375600000 (2025, 3, 31) 25200000
   \<and> map date_p (filteredTimeline taipei 1743375600000 1743375600000 P1m marchPoints)
        = [''2025-03-03'', ''2025-03-04'', ''2025-03-31'']"
proof -
  have n: "civil taipei 1743393600000 (2025, 3, 31) 43200000"
    by code_simp
  have w: "list_all (\<lambda>p. wf_date (date_p p)) marchPoints"
    by code_simp
  then have w': "\<forall>p\<in>set marchPoints. wf_date (date_p p)"
    unfolding list_all_iff .
  have c1: "cutoffCivil P1m (2025, 3) (2025, 3, 31) = (2025, 3, 3)"
    by code_simp
  have c2: "cutoffCivil P1y (2024, 2) (2024, 2, 29) = (2023, 3, 1)"
    by code_simp
  have c3: "cutoffCivil P3m (2025, 3) (2025, 3, 31) = (2024, 12, 31)"
    by code_simp
  have t: "TimeClip (UTC taipei (MakeDate (MakeDay 2025 (3 - 1) 3) 43200000)) = Some 1740974400000"
    by code_simp
  have z: "(\<forall>t u. taipei t u = 28800000) \<and> (0 :: int) \<le> 28800000 \<and> 28800000 < msPerDay
      \<and> TimeClip (UTC taipei (MakeDate (MakeDay 2025 (3 - 1) 3) 43200000)) \<noteq> None"
    unfolding t by (simp add: taipei_def msPerDay_def)
  have p: "P1m \<noteq> PAll"
    by simp
  note th = filteredTimeline_civil [OF n n w', of P1m 28800000]
  have "filteredTimeline taipei 1743393600000 1743393600000 P1m marchPoints
          = filter (\<lambda>p. MakeDay 2025 (3 - 1) 3 < dayNumber (date_p p)
                        \<or> (MakeDay 2025 (3 - 1) 3 = dayNumber (date_p p) \<and> (43200000 :: int) \<le> 28800000))
              marchPoints"
    using mp [OF conjunct2 [OF th] p] z unfolding c1 prod.case by blast
  moreover have "map date_p (filter (\<lambda>p. MakeDay 2025 (3 - 1) 3 < dayNumber (date_p p)
                        \<or> (MakeDay 2025 (3 - 1) 3 = dayNumber (date_p p) \<and> (43200000 :: int) \<le> 28800000))
              marchPoints) = [''2025-03-04'', ''2025-03-31'']"
    by code_simp
  ultimately have r: "map date_p (filteredTimeline taipei 1743393600000 1743393600000 P1m marchPoints)
        = [''2025-03-04'', ''2025-03-31'']"
    by (simp only:)
  have n2: "civil taipei 1743375600000 (2025, 3, 31) 25200000"
    by code_simp
  have r2: "map date_p (filteredTimeline taipei 1743375600000 1743375600000 P1m marchPoints)
        = [''2025-03-03'', ''2025-03-04'', ''2025-03-31'']"
    by code_simp
  show ?thesis
    by (intro conjI n w c1 c2 c3 t r n2 r2)
qed

end
